theory Spec2Isabelle
  imports Main "HOL-Library.Product_Lexorder"
begin

section \<open>The relational store of 001_initial_schema.sql\<close>

text \<open>
  The migration declares the tables, their constraints, two PL/pgSQL functions and the
  row trigger on \<open>files\<close>. Each table is a list of rows (a record per row), a nullable
  column is an \<open>option\<close>, and every statement returns either the error PostgreSQL raises
  or the new database. UUIDs are natural numbers and instants are integers: only their
  equality and order are used. The rows carry the columns that a constraint, a function
  or a trigger reads or writes, and a few others; the length limits of the VARCHAR
  columns are left out. A statement changes one row, named by its key.
\<close>

type_synonym uuid = nat
type_synonym timestamptz = int

datatype sql_error =
    Unique_violation string
  | Foreign_key_violation string
  | Check_violation string
  | Numeric_value_out_of_range

text \<open>BIGINT and INTEGER hold signed 64 and 32 bit values; a value outside is an error, never a wrap.\<close>

definition in_bigint :: "int \<Rightarrow> bool" where
  "in_bigint n = (- (2 ^ 63) \<le> n \<and> n < 2 ^ 63)"

definition in_integer :: "int \<Rightarrow> bool" where
  "in_integer n = (- (2 ^ 31) \<le> n \<and> n < 2 ^ 31)"

text \<open>
  A UNIQUE constraint compares two rows column by column with \<open>=\<close>: a NULL on either
  side makes the comparison unknown, so the rows do not collide (NULLS DISTINCT, the
  default of the migration's constraints).
\<close>

fun unique_eq :: "'a option \<Rightarrow> 'a option \<Rightarrow> bool" where
  "unique_eq (Some x) (Some y) = (x = y)"
| "unique_eq _ _ = False"

record user_row =
  u_id :: uuid
  email :: string
  storage_used :: "int option"
  storage_limit :: "int option"
  u_updated_at :: "timestamptz option"

record folder_row =
  fo_id :: uuid
  fo_user_id :: uuid
  fo_parent_id :: "uuid option"
  fo_name :: string
  fo_path :: string
  fo_is_deleted :: "bool option"

record file_row =
  f_id :: uuid
  f_user_id :: uuid
  f_folder_id :: "uuid option"
  f_name :: string
  f_size :: int
  f_is_deleted :: "bool option"
  f_expires_at :: "timestamptz option"
  f_updated_at :: "timestamptz option"

record share_row =
  s_id :: uuid
  s_file_id :: uuid
  s_user_id :: uuid
  s_token :: string
  s_expires_at :: "timestamptz option"
  download_count :: "int option"
  download_limit :: "int option"
  s_is_active :: "bool option"

record task_row =
  t_id :: uuid
  task_type :: string
  target_id :: uuid
  t_expires_at :: timestamptz
  is_processed :: "bool option"
  processed_at :: "timestamptz option"

record database =
  users :: "user_row list"
  folders :: "folder_row list"
  files :: "file_row list"
  shares :: "share_row list"
  expiry_tasks :: "task_row list"

subsection \<open>Table \<open>expiry_tasks\<close>\<close>

text \<open>
  \<open>CHECK (task_type IN ('file', 'share'))\<close>, the primary key on \<open>id\<close> and
  \<open>CONSTRAINT unique_unprocessed_task UNIQUE (task_type, target_id, is_processed)\<close>.
  \<open>is_processed\<close> has a default and no NOT NULL, so it is nullable.
\<close>

definition task_type_check :: "task_row \<Rightarrow> bool" where
  "task_type_check r = (task_type r = ''file'' \<or> task_type r = ''share'')"

definition unique_unprocessed_task :: "task_row \<Rightarrow> task_row \<Rightarrow> bool" where
  "unique_unprocessed_task r r' =
     (task_type r = task_type r' \<and> target_id r = target_id r' \<and>
      unique_eq (is_processed r) (is_processed r'))"

text \<open>The checks a new row version passes against the rows it is stored beside.\<close>

definition task_row_check :: "task_row \<Rightarrow> task_row list \<Rightarrow> sql_error + unit" where
  "task_row_check r others =
     (if \<not> task_type_check r then Inl (Check_violation ''expiry_tasks_task_type_check'')
      else if list_ex (\<lambda>r'. t_id r' = t_id r) others
        then Inl (Unique_violation ''expiry_tasks_pkey'')
      else if list_ex (unique_unprocessed_task r) others
        then Inl (Unique_violation ''unique_unprocessed_task'')
      else Inr ())"

text \<open>\<open>INSERT INTO expiry_tasks VALUES (r)\<close>.\<close>

definition insert_task :: "task_row \<Rightarrow> task_row list \<Rightarrow> sql_error + task_row list" where
  "insert_task r ts =
     (case task_row_check r ts of Inl e \<Rightarrow> Inl e | Inr _ \<Rightarrow> Inr (ts @ [r]))"

text \<open>
  \<open>UPDATE expiry_tasks SET ... WHERE id = tid\<close>: \<open>upd\<close> is the SET clause, over any
  column, the key included. No row with that id: zero rows are updated, no error.
\<close>

definition update_task ::
  "uuid \<Rightarrow> (task_row \<Rightarrow> task_row) \<Rightarrow> task_row list \<Rightarrow> sql_error + task_row list" where
  "update_task tid upd ts =
     (case find (\<lambda>r. t_id r = tid) ts of
        None \<Rightarrow> Inr ts
      | Some old \<Rightarrow>
          (let new = upd old in
           case task_row_check new (filter (\<lambda>r. t_id r \<noteq> tid) ts) of
             Inl e \<Rightarrow> Inl e
           | Inr _ \<Rightarrow> Inr (map (\<lambda>r. if t_id r = tid then new else r) ts)))"

text \<open>\<open>DELETE FROM expiry_tasks WHERE id = tid\<close>.\<close>

definition delete_task :: "uuid \<Rightarrow> task_row list \<Rightarrow> sql_error + task_row list" where
  "delete_task tid ts = Inr (filter (\<lambda>r. t_id r \<noteq> tid) ts)"

text \<open>
  Every way a client can change the table. A statement that raises leaves the table as
  it was, and the next statement runs on it.
\<close>

datatype task_stmt =
    Insert_task task_row
  | Update_task uuid "task_row \<Rightarrow> task_row"
  | Delete_task uuid

fun exec_task_stmt :: "task_stmt \<Rightarrow> task_row list \<Rightarrow> sql_error + task_row list" where
  "exec_task_stmt (Insert_task r) ts = insert_task r ts"
| "exec_task_stmt (Update_task tid upd) ts = update_task tid upd ts"
| "exec_task_stmt (Delete_task tid) ts = delete_task tid ts"

definition run_task_stmt :: "task_row list \<Rightarrow> task_stmt \<Rightarrow> task_row list" where
  "run_task_stmt ts st = (case exec_task_stmt st ts of Inl _ \<Rightarrow> ts | Inr ts' \<Rightarrow> ts')"

definition tasks_after :: "task_stmt list \<Rightarrow> task_row list" where
  "tasks_after sts = foldl run_task_stmt [] sts"

text \<open>The rows of one (kind, target) whose \<open>is_processed\<close> is the given flag.\<close>

definition tasks_of :: "string \<Rightarrow> uuid \<Rightarrow> bool \<Rightarrow> task_row list \<Rightarrow> task_row list" where
  "tasks_of k tgt b ts =
     filter (\<lambda>r. task_type r = k \<and> target_id r = tgt \<and> is_processed r = Some b) ts"

text \<open>The state the constraints keep: keys are distinct and no two rows collide.\<close>

fun tasks_ok :: "task_row list \<Rightarrow> bool" where
  "tasks_ok [] = True"
| "tasks_ok (r # rs) =
     (\<not> list_ex (\<lambda>r'. t_id r' = t_id r) rs \<and> \<not> list_ex (unique_unprocessed_task r) rs \<and>
      tasks_ok rs)"

subsection \<open>Table \<open>folders\<close>\<close>

text \<open>
  The primary key, \<open>CONSTRAINT unique_folder_name_per_parent UNIQUE (user_id, parent_id,
  name, is_deleted)\<close> and the two foreign keys. \<open>parent_id\<close> is NULL for a folder at the
  root; \<open>is_deleted\<close> is nullable with default false. A folder may name itself as parent.
\<close>

definition unique_folder_name_per_parent :: "folder_row \<Rightarrow> folder_row \<Rightarrow> bool" where
  "unique_folder_name_per_parent r r' =
     (fo_user_id r = fo_user_id r' \<and> unique_eq (fo_parent_id r) (fo_parent_id r') \<and>
      fo_name r = fo_name r' \<and> unique_eq (fo_is_deleted r) (fo_is_deleted r'))"

definition folder_parent_fkey :: "folder_row \<Rightarrow> folder_row list \<Rightarrow> bool" where
  "folder_parent_fkey r rs =
     (case fo_parent_id r of
        None \<Rightarrow> True
      | Some p \<Rightarrow> list_ex (\<lambda>r'. fo_id r' = p) (rs @ [r]))"

text \<open>\<open>INSERT INTO folders VALUES (r)\<close>.\<close>

definition insert_folder :: "folder_row \<Rightarrow> database \<Rightarrow> sql_error + database" where
  "insert_folder r db =
     (if list_ex (\<lambda>r'. fo_id r' = fo_id r) (folders db)
        then Inl (Unique_violation ''folders_pkey'')
      else if list_ex (unique_folder_name_per_parent r) (folders db)
        then Inl (Unique_violation ''unique_folder_name_per_parent'')
      else if \<not> list_ex (\<lambda>u. u_id u = fo_user_id r) (users db)
        then Inl (Foreign_key_violation ''folders_user_id_fkey'')
      else if \<not> folder_parent_fkey r (folders db)
        then Inl (Foreign_key_violation ''folders_parent_id_fkey'')
      else Inr (db\<lparr>folders := folders db @ [r]\<rparr>))"

subsection \<open>Table \<open>shares\<close>\<close>

text \<open>
  The INTEGER range of the two counters, \<open>CHECK (download_count >= 0)\<close>,
  \<open>CHECK (download_limit IS NULL OR download_limit > 0)\<close>, the primary key, the UNIQUE
  token and the two foreign keys. A CHECK over a NULL is not violated. No constraint
  relates \<open>download_count\<close> to \<open>download_limit\<close>.
\<close>

definition share_row_check :: "share_row \<Rightarrow> share_row list \<Rightarrow> database \<Rightarrow> sql_error + unit" where
  "share_row_check r others db =
     (if \<not> (case download_count r of None \<Rightarrow> True | Some c \<Rightarrow> in_integer c) \<or>
         \<not> (case download_limit r of None \<Rightarrow> True | Some l \<Rightarrow> in_integer l)
        then Inl Numeric_value_out_of_range
      else if \<not> (case download_count r of None \<Rightarrow> True | Some c \<Rightarrow> c \<ge> 0)
        then Inl (Check_violation ''non_negative_download_count'')
      else if \<not> (case download_limit r of None \<Rightarrow> True | Some l \<Rightarrow> l > 0)
        then Inl (Check_violation ''positive_download_limit'')
      else if list_ex (\<lambda>r'. s_id r' = s_id r) others
        then Inl (Unique_violation ''shares_pkey'')
      else if list_ex (\<lambda>r'. s_token r' = s_token r) others
        then Inl (Unique_violation ''shares_token_key'')
      else if \<not> list_ex (\<lambda>f. f_id f = s_file_id r) (files db)
        then Inl (Foreign_key_violation ''shares_file_id_fkey'')
      else if \<not> list_ex (\<lambda>u. u_id u = s_user_id r) (users db)
        then Inl (Foreign_key_violation ''shares_user_id_fkey'')
      else Inr ())"


definition update_share ::
  "uuid \<Rightarrow> (share_row \<Rightarrow> share_row) \<Rightarrow> database \<Rightarrow> sql_error + database" where
  "update_share sid upd db =
     (case find (\<lambda>r. s_id r = sid) (shares db) of
        None \<Rightarrow> Inr db
      | Some old \<Rightarrow>
          (let new = (upd old)\<lparr>s_id := sid\<rparr> in
           case share_row_check new (filter (\<lambda>r. s_id r \<noteq> sid) (shares db)) db of
             Inl e \<Rightarrow> Inl e
           | Inr _ \<Rightarrow>
               Inr (db\<lparr>shares := map (\<lambda>r. if s_id r = sid then new else r) (shares db)\<rparr>)))"

subsection \<open>Tables \<open>users\<close> and \<open>files\<close>, and the storage trigger\<close>

text \<open>
  \<open>SUM\<close> over no rows is NULL, otherwise the sum; over a BIGINT column its result is a
  NUMERIC, which does not overflow. \<open>COALESCE\<close> returns its first argument that is not
  NULL. Storing the result in the BIGINT variable \<open>total_size\<close> raises when it is out of
  range.
\<close>

definition sql_sum :: "int list \<Rightarrow> int option" where
  "sql_sum xs = (if xs = [] then None else Some (sum_list xs))"

fun coalesce :: "'a option \<Rightarrow> 'a option \<Rightarrow> 'a option" where
  "coalesce (Some x) y = Some x"
| "coalesce None y = y"

definition cast_bigint :: "int option \<Rightarrow> sql_error + int option" where
  "cast_bigint v =
     (case v of
        None \<Rightarrow> Inr None
      | Some n \<Rightarrow> if in_bigint n then Inr (Some n) else Inl Numeric_value_out_of_range)"

text \<open>
  \<open>SELECT COALESCE(SUM(size), 0) INTO total_size FROM files
   WHERE user_id = user_uuid AND is_deleted = false; RETURN total_size;\<close>
  A row whose \<open>is_deleted\<close> is NULL does not satisfy the WHERE clause.
\<close>

definition calculate_user_storage_usage :: "uuid \<Rightarrow> database \<Rightarrow> sql_error + int option" where
  "calculate_user_storage_usage user_uuid db =
     cast_bigint
       (coalesce
          (sql_sum (map f_size
             (filter (\<lambda>f. f_user_id f = user_uuid \<and> f_is_deleted f = Some False) (files db))))
          (Some 0))"

text \<open>
  \<open>update_updated_at_column\<close>, the BEFORE UPDATE row trigger of \<open>users\<close> and of
  \<open>files\<close>: \<open>NEW.updated_at = NOW()\<close>.
\<close>

definition update_users_updated_at :: "timestamptz \<Rightarrow> user_row \<Rightarrow> user_row" where
  "update_users_updated_at now new = new\<lparr>u_updated_at := Some now\<rparr>"

definition update_files_updated_at :: "timestamptz \<Rightarrow> file_row \<Rightarrow> file_row" where
  "update_files_updated_at now new = new\<lparr>f_updated_at := Some now\<rparr>"

text \<open>
  \<open>UPDATE users SET storage_used = calculate_user_storage_usage(uid) WHERE id = uid\<close>,
  the statement the trigger function runs. The function is evaluated for the rows the
  WHERE clause selects: with no such row nothing is computed and nothing raises.
\<close>

definition update_users_storage_used ::
  "uuid \<Rightarrow> timestamptz \<Rightarrow> database \<Rightarrow> sql_error + database" where
  "update_users_storage_used uid now db =
     (if \<not> list_ex (\<lambda>u. u_id u = uid) (users db) then Inr db
      else case calculate_user_storage_usage uid db of
        Inl e \<Rightarrow> Inl e
      | Inr v \<Rightarrow>
          Inr (db\<lparr>users :=
                 map (\<lambda>u. if u_id u = uid
                          then update_users_updated_at now (u\<lparr>storage_used := v\<rparr>)
                          else u)
                     (users db)\<rparr>))"

datatype tg_op = INSERT | UPDATE | DELETE | TRUNCATE

text \<open>
  The trigger function \<open>update_user_storage_usage\<close>, run AFTER INSERT OR UPDATE OR
  DELETE ON files FOR EACH ROW: \<open>old\<close> and \<open>new\<close> are the row versions OLD and NEW
  (NEW is NULL for a DELETE, OLD for an INSERT).
\<close>

definition update_user_storage_usage ::
  "tg_op \<Rightarrow> file_row option \<Rightarrow> file_row option \<Rightarrow> timestamptz \<Rightarrow> database
     \<Rightarrow> sql_error + database" where
  "update_user_storage_usage tg old new now db =
     (if tg = INSERT \<or> tg = UPDATE then
        (case new of
           Some n \<Rightarrow> update_users_storage_used (f_user_id n) now db
         | None \<Rightarrow> Inr db)
      else if tg = DELETE then
        (case old of
           Some od \<Rightarrow> update_users_storage_used (f_user_id od) now db
         | None \<Rightarrow> Inr db)
      else Inr db)"

text \<open>
  The constraints of \<open>files\<close> on a new row version: the BIGINT range of \<open>size\<close>,
  \<open>CHECK (size > 0)\<close>, the primary key and the two foreign keys.
\<close>

definition file_row_check :: "file_row \<Rightarrow> file_row list \<Rightarrow> database \<Rightarrow> sql_error + unit" where
  "file_row_check r others db =
     (if \<not> in_bigint (f_size r) then Inl Numeric_value_out_of_range
      else if \<not> f_size r > 0 then Inl (Check_violation ''positive_file_size'')
      else if list_ex (\<lambda>r'. f_id r' = f_id r) others
        then Inl (Unique_violation ''files_pkey'')
      else if \<not> list_ex (\<lambda>u. u_id u = f_user_id r) (users db)
        then Inl (Foreign_key_violation ''files_user_id_fkey'')
      else if \<not> (case f_folder_id r of
                   None \<Rightarrow> True
                 | Some d \<Rightarrow> list_ex (\<lambda>x. fo_id x = d) (folders db))
        then Inl (Foreign_key_violation ''files_folder_id_fkey'')
      else Inr ())"

text \<open>\<open>INSERT INTO files VALUES (r)\<close>, with the AFTER INSERT trigger.\<close>

definition insert_file :: "file_row \<Rightarrow> timestamptz \<Rightarrow> database \<Rightarrow> sql_error + database" where
  "insert_file r now db =
     (case file_row_check r (files db) db of
        Inl e \<Rightarrow> Inl e
      | Inr _ \<Rightarrow>
          update_user_storage_usage INSERT None (Some r) now
            (db\<lparr>files := files db @ [r]\<rparr>))"

text \<open>
  \<open>UPDATE files SET ... WHERE id = fid\<close>: \<open>upd\<close> is the SET clause over the columns other
  than the key (\<open>user_id\<close>, \<open>size\<close> and \<open>is_deleted\<close> among them). The BEFORE trigger
  stamps the new version, the constraints are checked, then the AFTER trigger runs.
\<close>

definition update_file ::
  "uuid \<Rightarrow> (file_row \<Rightarrow> file_row) \<Rightarrow> timestamptz \<Rightarrow> database \<Rightarrow> sql_error + database" where
  "update_file fid upd now db =
     (case find (\<lambda>r. f_id r = fid) (files db) of
        None \<Rightarrow> Inr db
      | Some old \<Rightarrow>
          (let new = update_files_updated_at now ((upd old)\<lparr>f_id := fid\<rparr>) in
           case file_row_check new (filter (\<lambda>r. f_id r \<noteq> fid) (files db)) db of
             Inl e \<Rightarrow> Inl e
           | Inr _ \<Rightarrow>
               update_user_storage_usage UPDATE (Some old) (Some new) now
                 (db\<lparr>files := map (\<lambda>r. if f_id r = fid then new else r) (files db)\<rparr>)))"

text \<open>
  \<open>DELETE FROM files WHERE id = fid\<close>: the shares of the file go with it
  (\<open>ON DELETE CASCADE\<close>), then the AFTER DELETE trigger runs.
\<close>

definition delete_file :: "uuid \<Rightarrow> timestamptz \<Rightarrow> database \<Rightarrow> sql_error + database" where
  "delete_file fid now db =
     (case find (\<lambda>r. f_id r = fid) (files db) of
        None \<Rightarrow> Inr db
      | Some old \<Rightarrow>
          update_user_storage_usage DELETE (Some old) None now
            (db\<lparr>files := filter (\<lambda>r. f_id r \<noteq> fid) (files db),
                shares := filter (\<lambda>s. s_file_id s \<noteq> fid) (shares db)\<rparr>))"

text \<open>
  The specification's aggregate: the sum of \<open>size\<close> over the non-deleted files of a user,
  and the statement that the user's persisted \<open>storage_used\<close> is that sum.
\<close>

definition live_total :: "uuid \<Rightarrow> database \<Rightarrow> int" where
  "live_total uid db =
     (\<Sum>f \<leftarrow> filter (\<lambda>f. f_user_id f = uid \<and> f_is_deleted f = Some False) (files db). f_size f)"

definition get_user :: "uuid \<Rightarrow> database \<Rightarrow> user_row option" where
  "get_user uid db = find (\<lambda>u. u_id u = uid) (users db)"

definition storage_exact :: "uuid \<Rightarrow> database \<Rightarrow> bool" where
  "storage_exact uid db =
     (case get_user uid db of
        None \<Rightarrow> False
      | Some u \<Rightarrow> storage_used u = Some (live_total uid db))"

text \<open>
  The invariant of the specification over the whole store, every user's aggregate is
  exact, and the primary key of \<open>files\<close>.
\<close>

definition storage_consistent :: "database \<Rightarrow> bool" where
  "storage_consistent db =
     list_all (\<lambda>u. storage_used u = Some (live_total (u_id u) db)) (users db)"

definition files_pkey :: "database \<Rightarrow> bool" where
  "files_pkey db = distinct (map f_id (files db))"

text \<open>What one file row adds to the aggregate of user \<open>v\<close>.\<close>

definition counted :: "uuid \<Rightarrow> file_row \<Rightarrow> int" where
  "counted v r = (if f_user_id r = v \<and> f_is_deleted r = Some False then f_size r else 0)"

section \<open>The client's request cache (client/src/services/api.ts)\<close>

text \<open>
  \<open>apiRequest\<close> keeps the promise of every GET request in the module-level map
  \<open>requestCache\<close> under \<open>getCacheKey\<close>, and a \<open>setTimeout\<close> callback deletes the key
  \<open>CACHE_DURATION\<close> milliseconds later. The client state is the map, the pending
  timer callbacks (due time and key), the clock, the log of the calls of \<open>fetch\<close> that
  \<open>executeRequest\<close> has made, and the promise objects created so far. The body of a
  request is its \<open>JSON.stringify\<close> text, \<open>None\<close> when the body is absent or falsy; the
  field \<open>req_method\<close> is \<open>config.method\<close>.

  Both \<open>executeRequest\<close> and \<open>apiRequest\<close> are async functions, so every call of either
  creates a promise object of its own. A promise is identified by its position in the
  list \<open>promises\<close>. The promise of an \<open>executeRequest\<close> call is settled by the outcome of
  the \<open>fetch\<close> call it made; the promise of an \<open>apiRequest\<close> call is resolved with the
  promise its body returns and so adopts that promise's outcome.
\<close>

datatype promise =
    Fetch_promise nat
  | Async_promise nat

datatype http_method = GET | POST | PUT | HTTP_DELETE

record request_config =
  req_method :: "http_method option"
  headers :: "(string \<times> string) list"
  body :: "string option"

definition CACHE_DURATION :: nat where
  "CACHE_DURATION = 5000"

text \<open>
  \<open>`${config.method || 'GET'}:${endpoint}:${JSON.stringify(config.body || {})}`\<close>
\<close>

fun method_name :: "http_method \<Rightarrow> string" where
  "method_name GET = ''GET''"
| "method_name POST = ''POST''"
| "method_name PUT = ''PUT''"
| "method_name HTTP_DELETE = ''DELETE''"

definition method_or_get :: "request_config \<Rightarrow> http_method" where
  "method_or_get config = (case req_method config of None \<Rightarrow> GET | Some m \<Rightarrow> m)"

definition getCacheKey :: "string \<Rightarrow> request_config \<Rightarrow> string" where
  "getCacheKey endpoint config =
     method_name (method_or_get config) @ '':'' @ endpoint @ '':'' @
     (case body config of None \<Rightarrow> ''{}'' | Some b \<Rightarrow> b)"

record client =
  requestCache :: "string \<rightharpoonup> nat"
  timers :: "(nat \<times> string) list"
  clock :: nat
  fetched :: "(string \<times> request_config) list"
  promises :: "promise list"

definition client_init :: client where
  "client_init =
     \<lparr>requestCache = Map.empty, timers = [], clock = 0, fetched = [], promises = []\<rparr>"

text \<open>
  \<open>executeRequest\<close> calls \<open>fetch\<close> before its first \<open>await\<close>: \<open>fetch\<close> is called during
  the call, and the promise returned is a new object, settled by the outcome of that
  \<open>fetch\<close> call.
\<close>

definition executeRequest :: "string \<Rightarrow> request_config \<Rightarrow> client \<Rightarrow> nat \<times> client" where
  "executeRequest endpoint config st =
     (length (promises st),
      st\<lparr>fetched := fetched st @ [(endpoint, config)],
         promises := promises st @ [Fetch_promise (length (fetched st))]\<rparr>)"

text \<open>
  The body of \<open>apiRequest\<close>, up to its \<open>return\<close>: the promise it returns is the cached
  one, or the one of the \<open>executeRequest\<close> call it makes.
\<close>

definition apiRequest_body :: "string \<Rightarrow> request_config \<Rightarrow> client \<Rightarrow> nat \<times> client" where
  "apiRequest_body endpoint config st =
     (if method_or_get config = GET then
        (let cacheKey = getCacheKey endpoint config in
         case requestCache st cacheKey of
           Some p \<Rightarrow> (p, st)
         | None \<Rightarrow>
             (let (requestPromise, st1) = executeRequest endpoint config st in
              (requestPromise,
               st1\<lparr>requestCache := (requestCache st1)(cacheKey \<mapsto> requestPromise),
                   timers := timers st1 @ [(clock st1 + CACHE_DURATION, cacheKey)]\<rparr>)))
      else executeRequest endpoint config st)"

text \<open>
  \<open>apiRequest\<close> as its caller sees it: the call returns a new promise object, resolved
  with the promise the body returned. (The two objects of a call are distinct; which of
  them is created first is not observable.)
\<close>

definition apiRequest :: "string \<Rightarrow> request_config \<Rightarrow> client \<Rightarrow> nat \<times> client" where
  "apiRequest endpoint config st =
     (let (returned, st1) = apiRequest_body endpoint config st in
      (length (promises st1), st1\<lparr>promises := promises st1 @ [Async_promise returned]\<rparr>))"

text \<open>
  The promise a promise was resolved with, and the \<open>fetch\<close> call whose outcome settles a
  promise (its own, or the one of the promise it adopts).
\<close>

definition promise_at :: "client \<Rightarrow> nat \<Rightarrow> promise option" where
  "promise_at st p = (if p < length (promises st) then Some (promises st ! p) else None)"

definition adopted :: "client \<Rightarrow> nat \<Rightarrow> nat option" where
  "adopted st p =
     (case promise_at st p of
        Some (Async_promise r) \<Rightarrow> Some r
      | _ \<Rightarrow> None)"

definition settled_by :: "client \<Rightarrow> nat \<Rightarrow> nat option" where
  "settled_by st p =
     (case promise_at st p of
        Some (Fetch_promise n) \<Rightarrow> Some n
      | Some (Async_promise r) \<Rightarrow>
          (case promise_at st r of
             Some (Fetch_promise n) \<Rightarrow> Some n
           | _ \<Rightarrow> None)
      | None \<Rightarrow> None)"

text \<open>
  What happens in the page: a call of \<open>apiRequest\<close>, time passing, and the event loop
  running a pending timer callback, which it does no earlier than the timer is due.
\<close>

datatype event =
    Call string request_config
  | Advance nat
  | Fire nat

fun step :: "client \<Rightarrow> event \<Rightarrow> client" where
  "step st (Call endpoint config) = snd (apiRequest endpoint config st)"
| "step st (Advance d) = st\<lparr>clock := clock st + d\<rparr>"
| "step st (Fire i) =
     (if i < length (timers st) \<and> fst (timers st ! i) \<le> clock st
      then st\<lparr>requestCache := (requestCache st)(snd (timers st ! i) := None),
              timers := take i (timers st) @ drop (Suc i) (timers st)\<rparr>
      else st)"

definition run :: "event list \<Rightarrow> client \<Rightarrow> client" where
  "run evs st = foldl step st evs"

text \<open>
  The calls of \<open>fetch\<close> made under a cache key, the pending timers of a key, and the
  invariant that a cached key has exactly one pending timer and any other key none.
\<close>

definition fetched_for :: "string \<Rightarrow> client \<Rightarrow> (string \<times> request_config) list" where
  "fetched_for k st = filter (\<lambda>(e, c). getCacheKey e c = k) (fetched st)"

definition timers_for :: "string \<Rightarrow> client \<Rightarrow> (nat \<times> string) list" where
  "timers_for k st = filter (\<lambda>t. snd t = k) (timers st)"

definition cache_timers :: "client \<Rightarrow> bool" where
  "cache_timers st =
     (\<forall>k. length (timers_for k st) = (case requestCache st k of None \<Rightarrow> 0 | Some _ \<Rightarrow> 1))"

text \<open>The window of an entry: the key maps to p, and its only timer is due at \<open>t\<close>.\<close>

definition window :: "string \<Rightarrow> nat \<Rightarrow> nat \<Rightarrow> client \<Rightarrow> bool" where
  "window k p t st = (requestCache st k = Some p \<and> timers_for k st = [(t, k)])"

section \<open>The expiration task registry\<close>

text \<open>
  Modelled from the spec: \<open>dueTasks(asOf, limit)\<close> of the Expiration Task Registry
  (section 4.3), which is not among the source files. It yields the unprocessed tasks
  whose due instant is at most \<open>asOf\<close>, ordered by due instant ascending, ties ordered
  by task identity, capped at \<open>limit\<close>. The due instant of a task is the column
  \<open>expires_at\<close> of \<open>expiry_tasks\<close>, its identity the column \<open>id\<close>; pairs are ordered
  lexicographically.
\<close>

definition due_key :: "task_row \<Rightarrow> timestamptz \<times> uuid" where
  "due_key r = (t_expires_at r, t_id r)"

text \<open>
  Modelled from the spec: \<open>dueTasks(asOf, limit)\<close> itself (the registry is not among the
  source files).
\<close>

definition dueTasks :: "timestamptz \<Rightarrow> nat \<Rightarrow> task_row list \<Rightarrow> task_row list" where
  "dueTasks asOf limit ts =
     take limit
       (sort_key due_key
          (filter (\<lambda>r. is_processed r = Some False \<and> t_expires_at r \<le> asOf) ts))"

text \<open>
  The order of the specification: earlier due instant first, equal instants by task
  identity.
\<close>

definition due_before :: "task_row \<Rightarrow> task_row \<Rightarrow> bool" where
  "due_before a b =
     (t_expires_at a < t_expires_at b \<or> (t_expires_at a = t_expires_at b \<and> t_id a \<le> t_id b))"

section \<open>Share downloads\<close>




section \<open>The expiration sweeper\<close>

text \<open>
  Modelled from the spec: the Expiration Sweeper (section 4.4), which is not among the
  source files; it works on the tables, constraints and trigger of the migration above.
  A sweep cycle fetches up to \<open>limit\<close> due tasks with \<open>dueTasks now limit\<close> and handles
  them in that order. For each task it claims the task by a conditional update of
  \<open>is_processed\<close> from false to true on the task's current row. The claim is lost when
  the row is gone or is no longer unprocessed (another sweeper or a cancel altered it):
  the task is skipped and no error is surfaced (step 4). The specification names no
  handling for any other error the store raises on the claim update; the model follows
  the failure semantics the section gives for store errors, which abort the cycle: the
  result of the cycle is then the error, and the store an aborted cycle leaves behind
  is not modelled. After a successful claim a task of kind \<open>file\<close>
  soft-deletes its target (\<open>is_deleted = true\<close>; the UPDATE fires the storage trigger,
  which is the recompute for the file's user) and a task of kind \<open>share\<close> sets
  \<open>is_active = false\<close>. A target that no longer exists is no error. An error of the
  effect is logged and leaves the task claimed (step 5).
\<close>

datatype claim_result = Claimed database | Lost | Refused sql_error

text \<open>
  Modelled from the spec: step 2 of the sweep cycle, the claim of one task by a
  conditional update through the store (the sweeper is not among the source files).
\<close>

definition claim_task :: "timestamptz \<Rightarrow> uuid \<Rightarrow> database \<Rightarrow> claim_result" where
  "claim_task now tid db =
     (case find (\<lambda>r. t_id r = tid) (expiry_tasks db) of
        None \<Rightarrow> Lost
      | Some cur \<Rightarrow>
          if is_processed cur = Some False then
            (case update_task tid (\<lambda>r. r\<lparr>is_processed := Some True, processed_at := Some now\<rparr>)
                    (expiry_tasks db) of
               Inl e \<Rightarrow> Refused e
             | Inr ts \<Rightarrow> Claimed (db\<lparr>expiry_tasks := ts\<rparr>))
          else Lost)"

text \<open>
  Modelled from the spec: step 3 of the sweep cycle, the effect of a claimed task on its
  target (the sweeper is not among the source files).
\<close>

definition apply_expiration :: "timestamptz \<Rightarrow> task_row \<Rightarrow> database \<Rightarrow> sql_error + database" where
  "apply_expiration now t db =
     (if task_type t = ''file''
        then update_file (target_id t) (\<lambda>r. r\<lparr>f_is_deleted := Some True\<rparr>) now db
      else if task_type t = ''share''
        then update_share (target_id t) (\<lambda>r. r\<lparr>s_is_active := Some False\<rparr>) db
      else Inr db)"

text \<open>
  Modelled from the spec: steps 2 to 5 of the sweep cycle for one fetched task (the
  sweeper is not among the source files).
\<close>

definition sweep_task :: "timestamptz \<Rightarrow> database \<Rightarrow> task_row \<Rightarrow> sql_error + database" where
  "sweep_task now db t =
     (case claim_task now (t_id t) db of
        Lost \<Rightarrow> Inr db
      | Refused e \<Rightarrow> Inl e
      | Claimed db1 \<Rightarrow>
          (case apply_expiration now t db1 of
             Inl e \<Rightarrow> Inr db1
           | Inr db2 \<Rightarrow> Inr db2))"

text \<open>
  Modelled from the spec: the loop of a sweep cycle over the fetched tasks, in their
  order (the sweeper is not among the source files).
\<close>

fun sweep_tasks :: "timestamptz \<Rightarrow> database \<Rightarrow> task_row list \<Rightarrow> sql_error + database" where
  "sweep_tasks now db [] = Inr db"
| "sweep_tasks now db (t # ts) =
     (case sweep_task now db t of
        Inl e \<Rightarrow> Inl e
      | Inr db1 \<Rightarrow> sweep_tasks now db1 ts)"

text \<open>
  Modelled from the spec: one sweep cycle, step 1 and the loop (the sweeper is not
  among the source files).
\<close>

definition sweep :: "timestamptz \<Rightarrow> nat \<Rightarrow> database \<Rightarrow> sql_error + database" where
  "sweep now limit db = sweep_tasks now db (dueTasks now limit (expiry_tasks db))"


text \<open>The file with a given id, and the task with a given id.\<close>

definition get_file :: "uuid \<Rightarrow> database \<Rightarrow> file_row option" where
  "get_file fid db = find (\<lambda>r. f_id r = fid) (files db)"

definition get_task :: "uuid \<Rightarrow> database \<Rightarrow> task_row option" where
  "get_task tid db = find (\<lambda>r. t_id r = tid) (expiry_tasks db)"




section \<open>Properties of \<open>expiry_tasks\<close>\<close>

lemma tasks_ok_append:
  "tasks_ok (xs @ [r]) =
     (tasks_ok xs \<and> \<not> list_ex (\<lambda>r'. t_id r' = t_id r) xs \<and>
      \<not> list_ex (unique_unprocessed_task r) xs)"
proof (induction xs)
  case Nil
  show ?case by simp
next
  case (Cons x xs)
  have sym: "unique_unprocessed_task x r = unique_unprocessed_task r x"
    by (cases "is_processed x"; cases "is_processed r")
       (auto simp: unique_unprocessed_task_def)
  show ?case using Cons.IH sym by (auto simp: list_ex_iff)
qed

lemma tasks_ok_filter: "tasks_ok ts \<Longrightarrow> tasks_ok (filter P ts)"
  by (induction ts) (auto simp: list_ex_iff)

lemma insert_task_ok:
  assumes "tasks_ok ts" and "insert_task r ts = Inr ts'"
  shows "tasks_ok ts'"
  using assms
  by (auto simp: insert_task_def task_row_check_def tasks_ok_append
           split: if_splits sum.splits)

lemma tasks_ok_replace:
  assumes "tasks_ok ts"
    and "\<not> list_ex (\<lambda>r'. t_id r' = t_id new) (filter (\<lambda>r. t_id r \<noteq> tid) ts)"
    and "\<not> list_ex (unique_unprocessed_task new) (filter (\<lambda>r. t_id r \<noteq> tid) ts)"
  shows "tasks_ok (map (\<lambda>r. if t_id r = tid then new else r) ts)"
  using assms
proof (induction ts)
  case Nil
  show ?case by simp
next
  case (Cons x xs)
  have sym: "\<And>a b. unique_unprocessed_task a b = unique_unprocessed_task b a"
    subgoal for a b
      by (cases "is_processed a"; cases "is_processed b")
         (auto simp: unique_unprocessed_task_def)
    done
  from Cons.prems have ok: "tasks_ok xs"
    and fresh: "\<forall>y \<in> set xs. t_id y \<noteq> t_id x"
    and nocol: "\<forall>y \<in> set xs. \<not> unique_unprocessed_task x y"
    by (auto simp: list_ex_iff)
  from Cons.prems(2) have rest_id:
    "\<not> list_ex (\<lambda>r'. t_id r' = t_id new) (filter (\<lambda>r. t_id r \<noteq> tid) xs)"
    by (auto simp: list_ex_iff)
  from Cons.prems(3) have rest:
    "\<not> list_ex (unique_unprocessed_task new) (filter (\<lambda>r. t_id r \<noteq> tid) xs)"
    by (auto simp: list_ex_iff)
  have IH: "tasks_ok (map (\<lambda>r. if t_id r = tid then new else r) xs)"
    using Cons.IH ok rest_id rest by simp
  show ?case
  proof (cases "t_id x = tid")
    case True
    then have same: "map (\<lambda>r. if t_id r = tid then new else r) xs = xs"
      using fresh by (induction xs) auto
    have "\<forall>y \<in> set xs. \<not> unique_unprocessed_task new y"
      using Cons.prems(3) fresh True by (auto simp: list_ex_iff)
    moreover have "\<forall>y \<in> set xs. t_id y \<noteq> t_id new"
      using Cons.prems(2) fresh True by (auto simp: list_ex_iff)
    ultimately show ?thesis using True same ok by (auto simp: list_ex_iff)
  next
    case False
    have "\<not> unique_unprocessed_task new x"
      using Cons.prems(3) False by (auto simp: list_ex_iff)
    then have "\<not> unique_unprocessed_task x new" using sym by simp
    moreover have "t_id new \<noteq> t_id x"
      using Cons.prems(2) False by (auto simp: list_ex_iff)
    ultimately show ?thesis
      using False IH fresh nocol by (auto simp: list_ex_iff)
  qed
qed

lemma update_task_ok:
  assumes "tasks_ok ts" and "update_task tid upd ts = Inr ts'"
  shows "tasks_ok ts'"
proof (cases "find (\<lambda>r. t_id r = tid) ts")
  case None
  then show ?thesis using assms by (simp add: update_task_def)
next
  case (Some old)
  from assms(2) Some have chk:
    "task_row_check (upd old) (filter (\<lambda>r. t_id r \<noteq> tid) ts) = Inr ()"
    and res: "ts' = map (\<lambda>r. if t_id r = tid then upd old else r) ts"
    by (auto simp: update_task_def Let_def split: sum.splits)
  from chk have
    "\<not> list_ex (\<lambda>r'. t_id r' = t_id (upd old)) (filter (\<lambda>r. t_id r \<noteq> tid) ts)"
    "\<not> list_ex (unique_unprocessed_task (upd old)) (filter (\<lambda>r. t_id r \<noteq> tid) ts)"
    by (auto simp: task_row_check_def split: if_splits)
  then show ?thesis using tasks_ok_replace [OF assms(1), of "upd old" tid] res by simp
qed

lemma run_task_stmt_ok: "tasks_ok ts \<Longrightarrow> tasks_ok (run_task_stmt ts st)"
  by (cases st)
     (auto simp: run_task_stmt_def delete_task_def tasks_ok_filter
           intro: insert_task_ok update_task_ok split: sum.splits)

lemma tasks_ok_foldl: "tasks_ok ts \<Longrightarrow> tasks_ok (foldl run_task_stmt ts sts)"
  by (induction sts arbitrary: ts) (auto simp: run_task_stmt_ok)

lemma tasks_ok_after: "tasks_ok (tasks_after sts)"
  by (simp add: tasks_after_def tasks_ok_foldl)

lemma tasks_ok_at_most_one: "tasks_ok ts \<Longrightarrow> length (tasks_of k tgt b ts) \<le> 1"
proof (induction ts)
  case Nil
  show ?case by (simp add: tasks_of_def)
next
  case (Cons x xs)
  then have IH: "length (tasks_of k tgt b xs) \<le> 1" by simp
  show ?case
  proof (cases "task_type x = k \<and> target_id x = tgt \<and> is_processed x = Some b")
    case False
    then show ?thesis using IH by (auto simp: tasks_of_def)
  next
    case True
    from Cons.prems have "\<forall>y \<in> set xs. \<not> unique_unprocessed_task x y"
      by (auto simp: list_ex_iff)
    with True have "tasks_of k tgt b xs = []"
      by (auto simp: tasks_of_def unique_unprocessed_task_def filter_empty_conv)
    with True show ?thesis by (simp add: tasks_of_def)
  qed
qed

text \<open>
  C2. For every (kind, target) at most one task row is unprocessed in any state the table
  can reach, whatever statements clients send: the store itself refuses, with the
  violation of \<open>unique_unprocessed_task\<close> or of another constraint, the insert of an
  unprocessed row for a (kind, target) that already has one.
\<close>

theorem expiry_tasks_one_unprocessed:
  "length (tasks_of k tgt False (tasks_after sts)) \<le> 1 \<and>
   (tasks_of (task_type r) (target_id r) False (tasks_after sts) \<noteq> [] \<and>
    is_processed r = Some False \<longrightarrow>
      (\<exists>e. insert_task r (tasks_after sts) = Inl e))"
proof
  show "length (tasks_of k tgt False (tasks_after sts)) \<le> 1"
    by (rule tasks_ok_at_most_one [OF tasks_ok_after])
next
  show "tasks_of (task_type r) (target_id r) False (tasks_after sts) \<noteq> [] \<and>
        is_processed r = Some False \<longrightarrow> (\<exists>e. insert_task r (tasks_after sts) = Inl e)"
  proof
    assume h: "tasks_of (task_type r) (target_id r) False (tasks_after sts) \<noteq> [] \<and>
               is_processed r = Some False"
    then obtain r' where "r' \<in> set (tasks_of (task_type r) (target_id r) False (tasks_after sts))"
      by (cases "tasks_of (task_type r) (target_id r) False (tasks_after sts)") auto
    then have "r' \<in> set (tasks_after sts)" and "unique_unprocessed_task r r'"
      using h by (auto simp: tasks_of_def unique_unprocessed_task_def)
    then have "list_ex (unique_unprocessed_task r) (tasks_after sts)"
      by (auto simp: list_ex_iff)
    then show "\<exists>e. insert_task r (tasks_after sts) = Inl e"
      by (simp add: insert_task_def task_row_check_def)
  qed
qed

theorem expiry_tasks_one_unprocessed_witness:
  "length (tasks_of ''file'' 7 False (tasks_after
      [Insert_task \<lparr>t_id = 1, task_type = ''file'', target_id = 7, t_expires_at = 100,
                    is_processed = Some False, processed_at = None\<rparr>])) = 1 \<and>
   insert_task
      \<lparr>t_id = 2, task_type = ''file'', target_id = 7, t_expires_at = 200,
       is_processed = Some False, processed_at = None\<rparr>
      (tasks_after
        [Insert_task \<lparr>t_id = 1, task_type = ''file'', target_id = 7, t_expires_at = 100,
                      is_processed = Some False, processed_at = None\<rparr>])
     = Inl (Unique_violation ''unique_unprocessed_task'')"
  using expiry_tasks_one_unprocessed
    [of "''file''" 7
        "[Insert_task \<lparr>t_id = 1, task_type = ''file'', target_id = 7, t_expires_at = 100,
                       is_processed = Some False, processed_at = None\<rparr>]"
        "\<lparr>t_id = 2, task_type = ''file'', target_id = 7, t_expires_at = 200,
          is_processed = Some False, processed_at = None\<rparr>"]
  by (simp add: tasks_after_def run_task_stmt_def insert_task_def task_row_check_def
        task_type_check_def unique_unprocessed_task_def tasks_of_def)

text \<open>
  C6, as the constraint behaves. \<open>unique_unprocessed_task\<close> compares \<open>is_processed\<close>
  like the other two columns, so two rows of one (kind, target) that are both processed
  collide exactly as two unprocessed rows do. The insert of a second processed row is
  refused, and no sequence of statements reaches a table with two of them.
\<close>

theorem processed_history_counterexample:
  "insert_task
      \<lparr>t_id = 2, task_type = ''file'', target_id = 7, t_expires_at = 200,
       is_processed = Some True, processed_at = Some 200\<rparr>
      [\<lparr>t_id = 1, task_type = ''file'', target_id = 7, t_expires_at = 100,
        is_processed = Some True, processed_at = Some 100\<rparr>]
     = Inl (Unique_violation ''unique_unprocessed_task'') \<and>
   \<not> (\<exists>sts. length (tasks_of ''file'' 7 True (tasks_after sts)) = 2)"
proof
  show "insert_task
      \<lparr>t_id = 2, task_type = ''file'', target_id = 7, t_expires_at = 200,
       is_processed = Some True, processed_at = Some 200\<rparr>
      [\<lparr>t_id = 1, task_type = ''file'', target_id = 7, t_expires_at = 100,
        is_processed = Some True, processed_at = Some 100\<rparr>]
     = Inl (Unique_violation ''unique_unprocessed_task'')"
    by (simp add: insert_task_def task_row_check_def task_type_check_def
          unique_unprocessed_task_def)
next
  show "\<not> (\<exists>sts. length (tasks_of ''file'' 7 True (tasks_after sts)) = 2)"
  proof
    assume "\<exists>sts. length (tasks_of ''file'' 7 True (tasks_after sts)) = 2"
    then obtain sts where two: "length (tasks_of ''file'' 7 True (tasks_after sts)) = 2" ..
    have "length (tasks_of ''file'' 7 True (tasks_after sts)) \<le> 1"
      by (rule tasks_ok_at_most_one [OF tasks_ok_after])
    with two show False by simp
  qed
qed

text \<open>
  C6, amended. In every state the table can reach, each (kind, target) has at most one
  row with \<open>is_processed = true\<close> and at most one with \<open>is_processed = false\<close>: the
  processed history of a target is one row, not an unbounded number.
\<close>

theorem processed_history_at_most_one:
  "length (tasks_of k tgt True (tasks_after sts)) \<le> 1 \<and>
   length (tasks_of k tgt False (tasks_after sts)) \<le> 1"
  using tasks_ok_at_most_one [OF tasks_ok_after] by blast

section \<open>Properties of \<open>folders\<close>\<close>

text \<open>A duplicate name below the same (non-NULL) parent does collide.\<close>

lemma unique_folder_name_rejects_below_parent:
  assumes "r' \<in> set (folders db)" and "fo_id r' \<noteq> fo_id r"
    and "\<not> list_ex (\<lambda>x. fo_id x = fo_id r) (folders db)"
    and "fo_user_id r = fo_user_id r'" and "fo_name r = fo_name r'"
    and "fo_parent_id r = Some p" and "fo_parent_id r' = Some p"
    and "fo_is_deleted r = Some False" and "fo_is_deleted r' = Some False"
  shows "insert_folder r db = Inl (Unique_violation ''unique_folder_name_per_parent'')"
proof -
  have "unique_folder_name_per_parent r r'"
    using assms by (simp add: unique_folder_name_per_parent_def)
  then have "list_ex (unique_folder_name_per_parent r) (folders db)"
    using assms(1) by (auto simp: list_ex_iff)
  then show ?thesis using assms(3) by (simp add: insert_folder_def)
qed

text \<open>
  C9. After a non-deleted root folder (\<open>parent_id\<close> NULL) has been inserted, a second
  non-deleted root folder of the same user with the identical name, under any fresh id,
  is inserted without a constraint violation, and both rows are in the table.
\<close>

theorem duplicate_root_folder_accepted:
  assumes "insert_folder r1 db = Inr db1"
    and "fo_parent_id r1 = None" and "fo_is_deleted r1 = Some False"
    and "fo_id r2 = i2" and "\<not> list_ex (\<lambda>r'. fo_id r' = i2) (folders db1)"
    and "fo_user_id r2 = fo_user_id r1" and "fo_name r2 = fo_name r1"
    and "fo_parent_id r2 = None" and "fo_is_deleted r2 = Some False"
  shows "insert_folder r2 db1 = Inr (db1\<lparr>folders := folders db @ [r1, r2]\<rparr>)"
proof -
  from assms(1) have db1: "db1 = db\<lparr>folders := folders db @ [r1]\<rparr>"
    and nocol: "\<not> list_ex (unique_folder_name_per_parent r1) (folders db)"
    and usr: "list_ex (\<lambda>u. u_id u = fo_user_id r1) (users db)"
    by (auto simp: insert_folder_def split: if_splits)
  have same: "\<And>x. unique_folder_name_per_parent r2 x = False"
    using assms(8) by (simp add: unique_folder_name_per_parent_def)
  have "\<not> list_ex (unique_folder_name_per_parent r2) (folders db1)"
    using same by (simp add: list_ex_iff)
  moreover have "list_ex (\<lambda>u. u_id u = fo_user_id r2) (users db1)"
    using usr assms(6) db1 by simp
  moreover have "folder_parent_fkey r2 (folders db1)"
    using assms(8) by (simp add: folder_parent_fkey_def)
  ultimately show ?thesis
    using assms(4,5) db1 by (simp add: insert_folder_def)
qed

theorem duplicate_root_folder_accepted_witness:
  "insert_folder
     \<lparr>fo_id = 11, fo_user_id = 1, fo_parent_id = None, fo_name = ''docs'',
      fo_path = ''/docs'', fo_is_deleted = Some False\<rparr>
     \<lparr>users = [\<lparr>u_id = 1, email = ''demo@netdisk.com'', storage_used = Some 0,
                storage_limit = Some 5368709120, u_updated_at = None\<rparr>],
      folders = [\<lparr>fo_id = 10, fo_user_id = 1, fo_parent_id = None, fo_name = ''docs'',
                  fo_path = ''/docs'', fo_is_deleted = Some False\<rparr>],
      files = [], shares = [], expiry_tasks = []\<rparr>
   = Inr \<lparr>users = [\<lparr>u_id = 1, email = ''demo@netdisk.com'', storage_used = Some 0,
                storage_limit = Some 5368709120, u_updated_at = None\<rparr>],
      folders = [\<lparr>fo_id = 10, fo_user_id = 1, fo_parent_id = None, fo_name = ''docs'',
                  fo_path = ''/docs'', fo_is_deleted = Some False\<rparr>,
                 \<lparr>fo_id = 11, fo_user_id = 1, fo_parent_id = None, fo_name = ''docs'',
                  fo_path = ''/docs'', fo_is_deleted = Some False\<rparr>],
      files = [], shares = [], expiry_tasks = []\<rparr>"
proof -
  let ?u = "\<lparr>u_id = 1, email = ''demo@netdisk.com'', storage_used = Some 0,
               storage_limit = Some 5368709120, u_updated_at = None\<rparr>"
  let ?r1 = "\<lparr>fo_id = 10, fo_user_id = 1, fo_parent_id = None, fo_name = ''docs'',
                fo_path = ''/docs'', fo_is_deleted = Some False\<rparr>"
  let ?r2 = "\<lparr>fo_id = 11, fo_user_id = 1, fo_parent_id = None, fo_name = ''docs'',
                fo_path = ''/docs'', fo_is_deleted = Some False\<rparr>"
  let ?db = "\<lparr>users = [?u], folders = [], files = [], shares = [], expiry_tasks = []\<rparr>"
  let ?db1 = "\<lparr>users = [?u], folders = [?r1], files = [], shares = [], expiry_tasks = []\<rparr>"
  have h1: "insert_folder ?r1 ?db = Inr ?db1"
    by (simp add: insert_folder_def folder_parent_fkey_def)
  have h2: "fo_parent_id ?r1 = None" and h3: "fo_is_deleted ?r1 = Some False" by simp_all
  have h4: "fo_id ?r2 = 11" by simp
  have h5: "\<not> list_ex (\<lambda>r'. fo_id r' = 11) (folders ?db1)" by simp
  have h6: "fo_user_id ?r2 = fo_user_id ?r1" and h7: "fo_name ?r2 = fo_name ?r1" by simp_all
  have h8: "fo_parent_id ?r2 = None" and h9: "fo_is_deleted ?r2 = Some False" by simp_all
  from duplicate_root_folder_accepted [OF h1 h2 h3 h4 h5 h6 h7 h8 h9]
  show ?thesis by simp
qed

section \<open>Properties of the storage aggregate\<close>

lemma calculate_is_live_total:
  "calculate_user_storage_usage uid db =
     (if in_bigint (live_total uid db) then Inr (Some (live_total uid db))
      else Inl Numeric_value_out_of_range)"
  by (simp add: calculate_user_storage_usage_def live_total_def sql_sum_def cast_bigint_def)

lemma calculate_never_null: "calculate_user_storage_usage uid db \<noteq> Inr None"
  by (simp add: calculate_is_live_total)

text \<open>
  C8. For a user with no non-deleted file (no row at all, or only rows that are
  soft-deleted or belong to others), \<open>calculate_user_storage_usage\<close> returns 0, not NULL,
  and the recompute of such a user stores \<open>storage_used = 0\<close> in the user's row.
\<close>

theorem calculate_no_files_is_zero:
  assumes "filter (\<lambda>f. f_user_id f = uid \<and> f_is_deleted f = Some False) (files db) = []"
    and "get_user uid db = Some u"
  shows "calculate_user_storage_usage uid db = Inr (Some 0) \<and>
         (\<exists>db'. update_users_storage_used uid now db = Inr db' \<and>
            get_user uid db' = Some (u\<lparr>storage_used := Some 0, u_updated_at := Some now\<rparr>))"
proof -
  have calc: "calculate_user_storage_usage uid db = Inr (Some 0)"
    using assms(1)
    by (simp add: calculate_user_storage_usage_def sql_sum_def cast_bigint_def in_bigint_def)
  have ex: "list_ex (\<lambda>u. u_id u = uid) (users db)"
    using assms(2) by (auto simp: get_user_def list_ex_iff find_Some_iff)
  have "find (\<lambda>u. u_id u = uid)
          (map (\<lambda>x. if u_id x = uid
                    then update_users_updated_at now (x\<lparr>storage_used := Some 0\<rparr>) else x) us)
        = map_option (\<lambda>x. x\<lparr>storage_used := Some 0, u_updated_at := Some now\<rparr>)
            (find (\<lambda>u. u_id u = uid) us)" for us
    by (induction us) (auto simp: update_users_updated_at_def)
  then show ?thesis
    using calc ex assms(2) by (simp add: update_users_storage_used_def get_user_def)
qed

theorem calculate_no_files_is_zero_witness:
  "calculate_user_storage_usage 1
     \<lparr>users = [\<lparr>u_id = 1, email = ''demo@netdisk.com'', storage_used = Some 700,
                storage_limit = Some 5368709120, u_updated_at = None\<rparr>],
      folders = [],
      files = [\<lparr>f_id = 20, f_user_id = 1, f_folder_id = None, f_name = ''a.txt'',
                f_size = 700, f_is_deleted = Some True, f_expires_at = None,
                f_updated_at = None\<rparr>],
      shares = [], expiry_tasks = []\<rparr> = Inr (Some 0) \<and>
   (\<exists>db'. update_users_storage_used 1 50
       \<lparr>users = [\<lparr>u_id = 1, email = ''demo@netdisk.com'', storage_used = Some 700,
                  storage_limit = Some 5368709120, u_updated_at = None\<rparr>],
        folders = [],
        files = [\<lparr>f_id = 20, f_user_id = 1, f_folder_id = None, f_name = ''a.txt'',
                  f_size = 700, f_is_deleted = Some True, f_expires_at = None,
                  f_updated_at = None\<rparr>],
        shares = [], expiry_tasks = []\<rparr> = Inr db' \<and>
      get_user 1 db' =
        Some \<lparr>u_id = 1, email = ''demo@netdisk.com'', storage_used = Some 0,
              storage_limit = Some 5368709120, u_updated_at = Some 50\<rparr>)"
proof -
  let ?u = "\<lparr>u_id = 1, email = ''demo@netdisk.com'', storage_used = Some 700,
               storage_limit = Some 5368709120, u_updated_at = None\<rparr>"
  let ?f = "\<lparr>f_id = 20, f_user_id = 1, f_folder_id = None, f_name = ''a.txt'',
               f_size = 700, f_is_deleted = Some True, f_expires_at = None,
               f_updated_at = None\<rparr>"
  let ?db = "\<lparr>users = [?u], folders = [], files = [?f], shares = [], expiry_tasks = []\<rparr>"
  have h1: "filter (\<lambda>f. f_user_id f = 1 \<and> f_is_deleted f = Some False) (files ?db) = []"
    by simp
  have h2: "get_user 1 ?db = Some ?u" by (simp add: get_user_def)
  from calculate_no_files_is_zero [OF h1 h2, of 50]
  show ?thesis by simp
qed

lemma find_user_map:
  "find (\<lambda>u. u_id u = uid) (map (\<lambda>x. if u_id x = w then g x else x) us)
     = (if uid = w then map_option g (find (\<lambda>u. u_id u = uid) us)
        else find (\<lambda>u. u_id u = uid) us)"
  if "\<And>x. u_id (g x) = u_id x"
  using that by (induction us) auto

lemma live_total_users_irrelevant [simp]:
  "live_total uid (db\<lparr>users := us\<rparr>) = live_total uid db"
  by (simp add: live_total_def)

lemma update_users_storage_used_files:
  "update_users_storage_used uid now db = Inr db' \<Longrightarrow>
     files db' = files db \<and> shares db' = shares db \<and> folders db' = folders db \<and>
     expiry_tasks db' = expiry_tasks db"
  by (auto simp: update_users_storage_used_def split: if_splits sum.splits)

lemma update_users_storage_used_exact:
  assumes "update_users_storage_used uid now db = Inr db'"
    and "list_ex (\<lambda>u. u_id u = uid) (users db)"
  shows "storage_exact uid db'"
proof -
  obtain u where u: "find (\<lambda>u. u_id u = uid) (users db) = Some u"
    using assms(2) by (cases "find (\<lambda>u. u_id u = uid) (users db)") (auto simp: find_None_iff list_ex_iff)
  from assms have big: "in_bigint (live_total uid db)"
    and db': "db' = db\<lparr>users := map (\<lambda>u. if u_id u = uid
                          then update_users_updated_at now (u\<lparr>storage_used := Some (live_total uid db)\<rparr>)
                          else u) (users db)\<rparr>"
    by (auto simp: update_users_storage_used_def calculate_is_live_total split: if_splits)
  show ?thesis
    unfolding storage_exact_def get_user_def db'
    using u by (simp add: find_user_map update_users_updated_at_def)
qed

lemma update_users_storage_used_other:
  assumes "update_users_storage_used uid now db = Inr db'" and "v \<noteq> uid"
  shows "get_user v db' = get_user v db"
  using assms
  by (auto simp: update_users_storage_used_def get_user_def find_user_map update_users_updated_at_def
           split: if_splits sum.splits)

lemma insert_file_owner_exact:
  assumes "insert_file r now db = Inr db'"
  shows "storage_exact (f_user_id r) db'"
proof -
  from assms have usr: "list_ex (\<lambda>u. u_id u = f_user_id r) (users db)"
    and upd: "update_users_storage_used (f_user_id r) now (db\<lparr>files := files db @ [r]\<rparr>) = Inr db'"
    by (auto simp: insert_file_def file_row_check_def update_user_storage_usage_def
             split: sum.splits if_splits)
  show ?thesis by (rule update_users_storage_used_exact [OF upd]) (use usr in simp)
qed

lemma update_file_owner_exact:
  assumes "update_file fid upd now db = Inr db'"
    and "find (\<lambda>r. f_id r = fid) (files db) = Some old"
  shows "storage_exact (f_user_id (upd old)) db'"
proof -
  let ?new = "update_files_updated_at now ((upd old)\<lparr>f_id := fid\<rparr>)"
  let ?db = "db\<lparr>files := map (\<lambda>r. if f_id r = fid then ?new else r) (files db)\<rparr>"
  have own: "f_user_id ?new = f_user_id (upd old)" by (simp add: update_files_updated_at_def)
  from assms have usr: "list_ex (\<lambda>u. u_id u = f_user_id ?new) (users db)"
    and upd: "update_users_storage_used (f_user_id ?new) now ?db = Inr db'"
    by (auto simp: update_file_def Let_def file_row_check_def update_user_storage_usage_def
             split: sum.splits if_splits)
  have "storage_exact (f_user_id ?new) db'"
    by (rule update_users_storage_used_exact [OF upd]) (use usr in simp)
  then show ?thesis using own by simp
qed

lemma delete_file_owner_exact:
  assumes "delete_file fid now db = Inr db'"
    and "find (\<lambda>r. f_id r = fid) (files db) = Some old"
    and "list_ex (\<lambda>u. u_id u = f_user_id old) (users db)"
  shows "storage_exact (f_user_id old) db'"
proof -
  let ?db = "db\<lparr>files := filter (\<lambda>r. f_id r \<noteq> fid) (files db),
                shares := filter (\<lambda>s. s_file_id s \<noteq> fid) (shares db)\<rparr>"
  from assms have upd: "update_users_storage_used (f_user_id old) now ?db = Inr db'"
    by (auto simp: delete_file_def update_user_storage_usage_def)
  show ?thesis by (rule update_users_storage_used_exact [OF upd]) (use assms(3) in simp)
qed


lemma sum_without_key:
  assumes "distinct (map f_id fs)" and "find (\<lambda>r. f_id r = fid) fs = Some old"
  shows "(\<Sum>r \<leftarrow> filter (\<lambda>r. f_id r \<noteq> fid) fs. g r) = (\<Sum>r \<leftarrow> fs. g r) - (g old :: int)"
  using assms
proof (induction fs)
  case Nil
  then show ?case by simp
next
  case (Cons x xs)
  show ?case
  proof (cases "f_id x = fid")
    case True
    then have "old = x" using Cons.prems(2) by simp
    moreover have "\<forall>y \<in> set xs. f_id y \<noteq> fid"
      using Cons.prems(1) True by (auto simp: image_iff)
    then have "filter (\<lambda>r. f_id r \<noteq> fid) xs = xs"
      by (simp add: filter_id_conv)
    ultimately show ?thesis using True by simp
  next
    case False
    then show ?thesis using Cons by simp
  qed
qed

lemma sum_replace_key:
  assumes "distinct (map f_id fs)" and "find (\<lambda>r. f_id r = fid) fs = Some old"
  shows "(\<Sum>r \<leftarrow> map (\<lambda>r. if f_id r = fid then new else r) fs. g r)
           = (\<Sum>r \<leftarrow> fs. g r) - (g old :: int) + g new"
  using assms
proof (induction fs)
  case Nil
  then show ?case by simp
next
  case (Cons x xs)
  show ?case
  proof (cases "f_id x = fid")
    case True
    then have "old = x" using Cons.prems(2) by simp
    moreover have "\<forall>y \<in> set xs. f_id y \<noteq> fid"
      using Cons.prems(1) True by (auto simp: image_iff)
    then have "map (\<lambda>r. if f_id r = fid then new else r) xs = xs"
      by (simp add: map_idI)
    ultimately show ?thesis using True by simp
  next
    case False
    then show ?thesis using Cons by simp
  qed
qed

lemma live_total_counted: "live_total v db = (\<Sum>r \<leftarrow> files db. counted v r)"
  by (simp add: live_total_def counted_def sum_list_map_filter')

lemma live_total_insert:
  "live_total v (db\<lparr>files := files db @ [r]\<rparr>) = live_total v db + counted v r"
  by (simp add: live_total_counted)

lemma live_total_delete:
  assumes "files_pkey db" and "find (\<lambda>r. f_id r = fid) (files db) = Some old"
  shows "live_total v (db\<lparr>files := filter (\<lambda>r. f_id r \<noteq> fid) (files db), shares := sh\<rparr>)
           = live_total v db - counted v old"
  using sum_without_key [OF assms [unfolded files_pkey_def]]
  by (simp add: live_total_counted)

lemma live_total_update:
  assumes "files_pkey db" and "find (\<lambda>r. f_id r = fid) (files db) = Some old"
  shows "live_total v (db\<lparr>files := map (\<lambda>r. if f_id r = fid then new else r) (files db)\<rparr>)
           = live_total v db - counted v old + counted v new"
  using sum_replace_key [OF assms [unfolded files_pkey_def]]
  by (simp add: live_total_counted)

lemma recompute_consistent:
  assumes "update_users_storage_used w now db1 = Inr db'"
    and "list_all (\<lambda>u. u_id u = w \<or> storage_used u = Some (live_total (u_id u) db1)) (users db1)"
  shows "storage_consistent db'"
proof (cases "list_ex (\<lambda>u. u_id u = w) (users db1)")
  case False
  then have "db' = db1" using assms(1) by (simp add: update_users_storage_used_def)
  then show ?thesis using assms(2) False
    by (auto simp: storage_consistent_def list_all_iff list_ex_iff)
next
  case True
  with assms(1) have db': "db' = db1\<lparr>users := map (\<lambda>u. if u_id u = w
        then update_users_updated_at now (u\<lparr>storage_used := Some (live_total w db1)\<rparr>)
        else u) (users db1)\<rparr>"
    by (auto simp: update_users_storage_used_def calculate_is_live_total split: if_splits)
  show ?thesis
    unfolding storage_consistent_def db' using assms(2)
    by (auto simp: list_all_iff update_users_updated_at_def)
qed

lemma insert_file_consistent:
  assumes "storage_consistent db" and "insert_file r now db = Inr db'"
  shows "storage_consistent db'"
proof -
  let ?db1 = "db\<lparr>files := files db @ [r]\<rparr>"
  from assms(2) have upd: "update_users_storage_used (f_user_id r) now ?db1 = Inr db'"
    by (auto simp: insert_file_def update_user_storage_usage_def split: sum.splits)
  have "list_all (\<lambda>u. u_id u = f_user_id r \<or>
          storage_used u = Some (live_total (u_id u) ?db1)) (users ?db1)"
    using assms(1)
    by (auto simp: storage_consistent_def list_all_iff live_total_insert counted_def)
  then show ?thesis by (rule recompute_consistent [OF upd])
qed

lemma delete_file_consistent:
  assumes "storage_consistent db" and "files_pkey db" and "delete_file fid now db = Inr db'"
  shows "storage_consistent db'"
proof (cases "find (\<lambda>r. f_id r = fid) (files db)")
  case None
  then show ?thesis using assms by (simp add: delete_file_def)
next
  case (Some old)
  let ?db1 = "db\<lparr>files := filter (\<lambda>r. f_id r \<noteq> fid) (files db),
                 shares := filter (\<lambda>s. s_file_id s \<noteq> fid) (shares db)\<rparr>"
  from assms(3) Some have upd: "update_users_storage_used (f_user_id old) now ?db1 = Inr db'"
    by (auto simp: delete_file_def update_user_storage_usage_def)
  have "list_all (\<lambda>u. u_id u = f_user_id old \<or>
          storage_used u = Some (live_total (u_id u) ?db1)) (users ?db1)"
    using assms(1)
    by (auto simp: storage_consistent_def list_all_iff live_total_delete [OF assms(2) Some]
          counted_def)
  then show ?thesis by (rule recompute_consistent [OF upd])
qed

lemma update_file_same_owner_consistent:
  assumes "storage_consistent db" and "files_pkey db"
    and "update_file fid upd now db = Inr db'"
    and "\<And>old. find (\<lambda>r. f_id r = fid) (files db) = Some old
           \<Longrightarrow> f_user_id (upd old) = f_user_id old"
  shows "storage_consistent db'"
proof (cases "find (\<lambda>r. f_id r = fid) (files db)")
  case None
  then show ?thesis using assms by (simp add: update_file_def)
next
  case (Some old)
  let ?new = "update_files_updated_at now ((upd old)\<lparr>f_id := fid\<rparr>)"
  let ?db1 = "db\<lparr>files := map (\<lambda>r. if f_id r = fid then ?new else r) (files db)\<rparr>"
  have own: "f_user_id ?new = f_user_id old"
    using assms(4) [OF Some] by (simp add: update_files_updated_at_def)
  from assms(3) Some have upd: "update_users_storage_used (f_user_id ?new) now ?db1 = Inr db'"
    by (auto simp: update_file_def Let_def update_user_storage_usage_def split: sum.splits)
  have "list_all (\<lambda>u. u_id u = f_user_id ?new \<or>
          storage_used u = Some (live_total (u_id u) ?db1)) (users ?db1)"
    using assms(1) own
    by (auto simp: storage_consistent_def list_all_iff live_total_update [OF assms(2) Some]
          counted_def)
  then show ?thesis by (rule recompute_consistent [OF upd])
qed

lemma update_file_previous_owner:
  assumes "files_pkey db"
    and "update_file fid upd now db = Inr db'"
    and "find (\<lambda>r. f_id r = fid) (files db) = Some old"
    and "f_user_id (upd old) \<noteq> f_user_id old"
    and "f_is_deleted old = Some False"
  shows "get_user (f_user_id old) db' = get_user (f_user_id old) db \<and>
         live_total (f_user_id old) db' = live_total (f_user_id old) db - f_size old"
proof -
  let ?new = "update_files_updated_at now ((upd old)\<lparr>f_id := fid\<rparr>)"
  let ?db1 = "db\<lparr>files := map (\<lambda>r. if f_id r = fid then ?new else r) (files db)\<rparr>"
  have own: "f_user_id ?new = f_user_id (upd old)" by (simp add: update_files_updated_at_def)
  from assms(2,3) have upd: "update_users_storage_used (f_user_id ?new) now ?db1 = Inr db'"
    by (auto simp: update_file_def Let_def update_user_storage_usage_def split: sum.splits)
  have "get_user (f_user_id old) db' = get_user (f_user_id old) ?db1"
    by (rule update_users_storage_used_other [OF upd]) (use own assms(4) in simp)
  then have g: "get_user (f_user_id old) db' = get_user (f_user_id old) db"
    by (simp add: get_user_def)
  have "files db' = files ?db1"
    using update_users_storage_used_files [OF upd] by simp
  then have "live_total (f_user_id old) db' = live_total (f_user_id old) ?db1"
    by (simp add: live_total_def)
  also have "\<dots> = live_total (f_user_id old) db - counted (f_user_id old) old
                  + counted (f_user_id old) ?new"
    by (rule live_total_update [OF assms(1,3)])
  also have "\<dots> = live_total (f_user_id old) db - f_size old"
    using assms(4,5) own by (simp add: counted_def)
  finally show ?thesis using g by simp
qed

text \<open>
  C5: what the trigger does when an update moves a file to another user. The trigger
  function reads only \<open>NEW.user_id\<close> for an UPDATE, so the new owner's aggregate is
  recomputed and exact, while the previous owner's row is not written: if it was exact
  before and the moved file was not deleted, it is afterwards too high by the file's
  size, and so no longer the sum over the previous owner's files.
\<close>

theorem update_file_previous_owner_stale:
  assumes "files_pkey db"
    and "update_file fid upd now db = Inr db'"
    and "find (\<lambda>r. f_id r = fid) (files db) = Some old"
    and "f_user_id (upd old) \<noteq> f_user_id old"
    and "f_is_deleted old = Some False" and "0 < f_size old"
    and "storage_exact (f_user_id old) db"
  shows "storage_exact (f_user_id (upd old)) db' \<and>
         \<not> storage_exact (f_user_id old) db' \<and>
         (\<exists>u. get_user (f_user_id old) db' = Some u \<and>
              storage_used u = Some (live_total (f_user_id old) db' + f_size old))"
proof -
  note prev = update_file_previous_owner [OF assms(1-5)]
  from assms(7) obtain u where u: "get_user (f_user_id old) db = Some u"
    and su: "storage_used u = Some (live_total (f_user_id old) db)"
    by (auto simp: storage_exact_def split: option.splits)
  have g: "get_user (f_user_id old) db' = Some u" using prev u by simp
  have su': "storage_used u = Some (live_total (f_user_id old) db' + f_size old)"
    using prev su by simp
  have "\<not> storage_exact (f_user_id old) db'"
    using g su' assms(6) by (simp add: storage_exact_def)
  then show ?thesis
    using update_file_owner_exact [OF assms(2,3)] g su' by blast
qed

theorem update_file_previous_owner_stale_witness:
  "storage_exact 2
     \<lparr>users = [\<lparr>u_id = 1, email = ''a@netdisk.com'', storage_used = Some 1000,
                storage_limit = Some 5368709120, u_updated_at = None\<rparr>,
               \<lparr>u_id = 2, email = ''b@netdisk.com'', storage_used = Some 1000,
                storage_limit = Some 5368709120, u_updated_at = Some 11\<rparr>],
      folders = [],
      files = [\<lparr>f_id = 20, f_user_id = 2, f_folder_id = None, f_name = ''a.txt'',
                f_size = 1000, f_is_deleted = Some False, f_expires_at = None,
                f_updated_at = Some 11\<rparr>],
      shares = [], expiry_tasks = []\<rparr> \<and>
   \<not> storage_exact 1
     \<lparr>users = [\<lparr>u_id = 1, email = ''a@netdisk.com'', storage_used = Some 1000,
                storage_limit = Some 5368709120, u_updated_at = None\<rparr>,
               \<lparr>u_id = 2, email = ''b@netdisk.com'', storage_used = Some 1000,
                storage_limit = Some 5368709120, u_updated_at = Some 11\<rparr>],
      folders = [],
      files = [\<lparr>f_id = 20, f_user_id = 2, f_folder_id = None, f_name = ''a.txt'',
                f_size = 1000, f_is_deleted = Some False, f_expires_at = None,
                f_updated_at = Some 11\<rparr>],
      shares = [], expiry_tasks = []\<rparr>"
proof -
  let ?a = "\<lparr>u_id = 1, email = ''a@netdisk.com'', storage_used = Some 1000,
                storage_limit = Some 5368709120, u_updated_at = None\<rparr>"
  let ?b = "\<lparr>u_id = 2, email = ''b@netdisk.com'', storage_used = Some 0,
                storage_limit = Some 5368709120, u_updated_at = None\<rparr>"
  let ?b' = "\<lparr>u_id = 2, email = ''b@netdisk.com'', storage_used = Some 1000,
                storage_limit = Some 5368709120, u_updated_at = Some 11\<rparr>"
  let ?old = "\<lparr>f_id = 20, f_user_id = 1, f_folder_id = None, f_name = ''a.txt'',
                f_size = 1000, f_is_deleted = Some False, f_expires_at = None,
                f_updated_at = None\<rparr>"
  let ?new = "\<lparr>f_id = 20, f_user_id = 2, f_folder_id = None, f_name = ''a.txt'',
                f_size = 1000, f_is_deleted = Some False, f_expires_at = None,
                f_updated_at = Some 11\<rparr>"
  let ?db = "\<lparr>users = [?a, ?b], folders = [], files = [?old], shares = [], expiry_tasks = []\<rparr>"
  let ?db' = "\<lparr>users = [?a, ?b'], folders = [], files = [?new], shares = [], expiry_tasks = []\<rparr>"
  let ?upd = "\<lambda>r. r\<lparr>f_user_id := 2\<rparr>"
  have h1: "files_pkey ?db" by (simp add: files_pkey_def)
  have h2: "update_file 20 ?upd 11 ?db = Inr ?db'"
    by (simp add: update_file_def file_row_check_def in_bigint_def
          update_files_updated_at_def update_user_storage_usage_def
          update_users_storage_used_def calculate_user_storage_usage_def sql_sum_def
          cast_bigint_def update_users_updated_at_def)
  have h3: "find (\<lambda>r. f_id r = 20) (files ?db) = Some ?old" by simp
  have h4: "f_user_id (?upd ?old) \<noteq> f_user_id ?old" by simp
  have h5: "f_is_deleted ?old = Some False" and h6: "0 < f_size ?old" by simp_all
  have h7: "storage_exact (f_user_id ?old) ?db"
    by (simp add: storage_exact_def get_user_def live_total_def)
  from update_file_previous_owner_stale [OF h1 h2 h3 h4 h5 h6 h7]
  show ?thesis by simp
qed

text \<open>
  C1, at an update that changes the owner. User 1 uploads a file of 1000 bytes; the file
  is then moved to user 2. Both statements succeed. Afterwards user 1 owns no file, the
  sum over user 1's non-deleted files is 0, and user 1's \<open>storage_used\<close> is still 1000.
  For inserts, deletes and updates that keep the owner the aggregate of every user stays
  exact (\<open>insert_file_consistent\<close>, \<open>delete_file_consistent\<close>,
  \<open>update_file_same_owner_consistent\<close>).
\<close>

theorem storage_used_after_transfer:
  "(case insert_file
           \<lparr>f_id = 20, f_user_id = 1, f_folder_id = None, f_name = ''a.txt'',
            f_size = 1000, f_is_deleted = Some False, f_expires_at = None,
            f_updated_at = None\<rparr> 10
           \<lparr>users = [\<lparr>u_id = 1, email = ''a@netdisk.com'', storage_used = Some 0,
                      storage_limit = Some 5368709120, u_updated_at = None\<rparr>,
                     \<lparr>u_id = 2, email = ''b@netdisk.com'', storage_used = Some 0,
                      storage_limit = Some 5368709120, u_updated_at = None\<rparr>],
            folders = [], files = [], shares = [], expiry_tasks = []\<rparr> of
      Inl e \<Rightarrow> None
    | Inr db1 \<Rightarrow>
        (case update_file 20 (\<lambda>r. r\<lparr>f_user_id := 2\<rparr>) 11 db1 of
           Inl e \<Rightarrow> None
         | Inr db2 \<Rightarrow>
             Some (map storage_used (users db1), live_total 1 db1, live_total 2 db1,
                   map storage_used (users db2), live_total 1 db2, live_total 2 db2)))
   = Some ([Some 1000, Some 0], 1000, 0, [Some 1000, Some 1000], 0, 1000)"
  by (simp add: insert_file_def update_file_def file_row_check_def in_bigint_def
        update_files_updated_at_def update_user_storage_usage_def
        update_users_storage_used_def calculate_user_storage_usage_def sql_sum_def
        cast_bigint_def update_users_updated_at_def live_total_def)

section \<open>Properties of the request cache\<close>

lemma getCacheKey_method:
  "getCacheKey e c = getCacheKey e' c' \<Longrightarrow> method_or_get c = method_or_get c'"
  by (cases "method_or_get c"; cases "method_or_get c'") (auto simp: getCacheKey_def)

lemma getCacheKey_cong:
  "method_or_get c' = method_or_get c \<Longrightarrow> body c' = body c
     \<Longrightarrow> getCacheKey e c' = getCacheKey e c"
  by (simp add: getCacheKey_def)

lemma filter_take_drop:
  assumes "i < length ts"
  shows "length (filter P (take i ts @ drop (Suc i) ts))
         = length (filter P ts) - (if P (ts ! i) then 1 else 0)"
proof -
  have "ts = take i ts @ ts ! i # drop (Suc i) ts"
    using assms by (simp add: id_take_nth_drop)
  then have "filter P ts = filter P (take i ts) @ filter P [ts ! i] @ filter P (drop (Suc i) ts)"
    by (metis append_Cons append_Nil filter_append)
  then show ?thesis by auto
qed

lemma filter_take_drop_other:
  assumes "i < length ts" and "\<not> P (ts ! i)"
  shows "filter P (take i ts @ drop (Suc i) ts) = filter P ts"
proof -
  have "ts = take i ts @ ts ! i # drop (Suc i) ts"
    using assms(1) by (simp add: id_take_nth_drop)
  then have "filter P ts = filter P (take i ts) @ filter P [ts ! i] @ filter P (drop (Suc i) ts)"
    by (metis append_Cons append_Nil filter_append)
  then show ?thesis using assms(2) by simp
qed

lemma cache_timers_step: "cache_timers st \<Longrightarrow> cache_timers (step st ev)"
proof (cases ev)
  case (Call e c)
  assume inv: "cache_timers st"
  show ?thesis
    using inv unfolding Call cache_timers_def
    by (auto simp: apiRequest_def apiRequest_body_def executeRequest_def timers_for_def
             Let_def split: option.splits)
next
  case (Advance d)
  assume "cache_timers st"
  then show ?thesis by (simp add: Advance cache_timers_def timers_for_def)
next
  case (Fire i)
  assume inv: "cache_timers st"
  show ?thesis
  proof (cases "i < length (timers st) \<and> fst (timers st ! i) \<le> clock st")
    case False
    then show ?thesis using inv Fire by auto
  next
    case True
    let ?k = "snd (timers st ! i)"
    have mem: "timers st ! i \<in> set (timers_for ?k st)"
      using True by (simp add: timers_for_def)
    then have "length (timers_for ?k st) \<noteq> 0" by auto
    then have one: "length (timers_for ?k st) = 1"
      using inv by (auto simp: cache_timers_def split: option.splits)
    show ?thesis
      unfolding cache_timers_def
    proof
      fix k
      show "length (timers_for k (step st ev)) =
            (case requestCache (step st ev) k of None \<Rightarrow> 0 | Some _ \<Rightarrow> 1)"
      proof (cases "k = ?k")
        case True': True
        have "length (timers_for k (step st ev)) = length (timers_for k st) - 1"
          using filter_take_drop [of i "timers st" "\<lambda>t. snd t = k"] True True' Fire
          by (simp add: timers_for_def del: filter_append)
        then show ?thesis using one True True' Fire by simp
      next
        case False
        have "length (timers_for k (step st ev)) = length (timers_for k st)"
          using filter_take_drop [of i "timers st" "\<lambda>t. snd t = k"] True False Fire
          by (simp add: timers_for_def del: filter_append)
        then show ?thesis using inv True False Fire by (simp add: cache_timers_def)
      qed
    qed
  qed
qed

lemma cache_timers_run: "cache_timers st \<Longrightarrow> cache_timers (run evs st)"
  unfolding run_def by (induction evs arbitrary: st) (auto simp: cache_timers_step)

lemma cache_timers_init: "cache_timers client_init"
  by (simp add: cache_timers_def client_init_def timers_for_def)

lemma clock_step: "clock st \<le> clock (step st ev)"
  by (cases ev)
     (auto simp: apiRequest_def apiRequest_body_def executeRequest_def Let_def
           split: option.splits)

lemma clock_run: "clock st \<le> clock (run evs st)"
  unfolding run_def
proof (induction evs arbitrary: st)
  case Nil
  show ?case by simp
next
  case (Cons ev evs)
  have "clock st \<le> clock (step st ev)" by (rule clock_step)
  also have "\<dots> \<le> clock (foldl step (step st ev) evs)" by (rule Cons.IH)
  finally show ?case by simp
qed

lemma window_step:
  assumes "window k p t st" and "clock (step st ev) < t"
    and "k = getCacheKey e0 c0" and "method_or_get c0 = GET"
  shows "window k p t (step st ev) \<and> fetched_for k (step st ev) = fetched_for k st"
proof (cases ev)
  case (Call e c)
  show ?thesis
  proof (cases "method_or_get c = GET")
    case True
    then show ?thesis
      using assms(1) unfolding Call window_def
      by (auto simp: apiRequest_def apiRequest_body_def executeRequest_def timers_for_def
               fetched_for_def Let_def split: option.splits)
  next
    case False
    have "getCacheKey e c \<noteq> k"
      using getCacheKey_method [of e c e0 c0] False assms(3,4) by auto
    then show ?thesis
      using assms(1) False unfolding Call window_def
      by (auto simp: apiRequest_def apiRequest_body_def executeRequest_def timers_for_def
               fetched_for_def)
  qed
next
  case (Advance d)
  then show ?thesis using assms(1) by (simp add: window_def timers_for_def fetched_for_def)
next
  case (Fire i)
  show ?thesis
  proof (cases "i < length (timers st) \<and> fst (timers st ! i) \<le> clock st")
    case False
    then show ?thesis using assms(1) Fire by auto
  next
    case True
    have "snd (timers st ! i) \<noteq> k"
    proof
      assume "snd (timers st ! i) = k"
      then have "timers st ! i \<in> set (timers_for k st)"
        using True by (simp add: timers_for_def)
      then have "timers st ! i = (t, k)" using assms(1) by (simp add: window_def)
      then have "t \<le> clock st" using True by simp
      moreover have "clock (step st ev) = clock st" using Fire by simp
      ultimately show False using assms(2) by simp
    qed
    then have "filter (\<lambda>t. snd t = k) (take i (timers st) @ drop (Suc i) (timers st))
               = filter (\<lambda>t. snd t = k) (timers st)"
      using True by (intro filter_take_drop_other) auto
    then show ?thesis
      using assms(1) True Fire \<open>snd (timers st ! i) \<noteq> k\<close>
      by (simp add: window_def timers_for_def fetched_for_def del: filter_append)
  qed
qed

lemma window_run:
  assumes "window k p t st" and "clock (run evs st) < t"
    and "k = getCacheKey e0 c0" and "method_or_get c0 = GET"
  shows "window k p t (run evs st) \<and> fetched_for k (run evs st) = fetched_for k st"
  using assms(1,2)
proof (induction evs arbitrary: st)
  case Nil
  then show ?case by (simp add: run_def)
next
  case (Cons ev evs)
  have r: "run (ev # evs) st = run evs (step st ev)" by (simp add: run_def)
  have "clock (step st ev) \<le> clock (run evs (step st ev))" by (rule clock_run)
  then have lt: "clock (step st ev) < t" using Cons.prems(2) r by simp
  note s = window_step [OF Cons.prems(1) lt assms(3,4)]
  have "window k p t (run evs (step st ev)) \<and>
        fetched_for k (run evs (step st ev)) = fetched_for k (step st ev)"
    using Cons.IH [of "step st ev"] s Cons.prems(2) r by simp
  then show ?case using s r by simp
qed

lemma promises_step: "\<exists>ys. promises (step st ev) = promises st @ ys"
  by (cases ev)
     (auto simp: apiRequest_def apiRequest_body_def executeRequest_def Let_def
           split: option.splits)

lemma promises_run: "\<exists>ys. promises (run evs st) = promises st @ ys"
  unfolding run_def
proof (induction evs arbitrary: st)
  case Nil
  show ?case by simp
next
  case (Cons ev evs)
  obtain ys where ys: "promises (step st ev) = promises st @ ys"
    using promises_step by blast
  obtain zs where "promises (foldl step (step st ev) evs) = promises (step st ev) @ zs"
    using Cons.IH by blast
  then show ?case using ys by simp
qed

text \<open>
  C10, as stated, fails on the promise: \<open>apiRequest\<close> is an async function, so two calls
  never return the same promise object. Two calls for \<open>/users/storage\<close> made at the same
  instant return the promises 1 and 2.
\<close>

theorem apiRequest_same_promise_counterexample:
  "fst (apiRequest ''/users/storage'' \<lparr>req_method = None, headers = [], body = None\<rparr> client_init) = 1 \<and>
   fst (apiRequest ''/users/storage'' \<lparr>req_method = None, headers = [], body = None\<rparr>
          (snd (apiRequest ''/users/storage'' \<lparr>req_method = None, headers = [], body = None\<rparr> client_init))) = 2"
  by (simp add: client_init_def apiRequest_def apiRequest_body_def executeRequest_def
        getCacheKey_def method_or_get_def CACHE_DURATION_def Let_def)

text \<open>
  C10, amended. A GET call that finds no entry for its key calls \<open>fetch\<close> once and
  opens the cache window of that key. Whatever the page does next (other calls, time
  passing, timers running), a call with the same method, endpoint and body made less
  than \<open>CACHE_DURATION\<close> = 5000 ms after the first returns a promise object of its own,
  different from the one the first call returned; both are resolved with the one cached
  promise, the promise of the first call's \<open>executeRequest\<close>, and so are settled by the
  outcome of the same \<open>fetch\<close> call. The second call makes no call of \<open>fetch\<close>: exactly
  one has been made under that key.
\<close>

theorem apiRequest_within_window:
  assumes "st = run evs0 client_init"
    and "method_or_get c = GET"
    and "requestCache st (getCacheKey e c) = None"
    and "apiRequest e c st = (p1, st1)"
    and "st2 = run evs st1"
    and "clock st2 < clock st + CACHE_DURATION"
    and "method_or_get c' = method_or_get c" and "body c' = body c"
    and "apiRequest e c' st2 = (p2, st3)"
  shows "p2 \<noteq> p1 \<and>
         adopted st3 p1 = requestCache st1 (getCacheKey e c) \<and>
         adopted st3 p2 = requestCache st1 (getCacheKey e c) \<and>
         settled_by st3 p1 = Some (length (fetched st)) \<and>
         settled_by st3 p2 = Some (length (fetched st)) \<and>
         fetched st3 = fetched st2 \<and>
         fetched_for (getCacheKey e c) st3 = fetched_for (getCacheKey e c) st @ [(e, c)]"
proof -
  let ?k = "getCacheKey e c"
  let ?q = "length (promises st)"
  let ?ps1 = "promises st @ [Fetch_promise (length (fetched st)), Async_promise ?q]"
  have inv: "cache_timers st"
    unfolding assms(1) by (rule cache_timers_run [OF cache_timers_init])
  have none: "timers_for ?k st = []"
    using inv [unfolded cache_timers_def, rule_format, of ?k] assms(3) by simp
  have p1: "p1 = Suc ?q"
    and st1: "st1 = st\<lparr>fetched := fetched st @ [(e, c)],
                      requestCache := (requestCache st)(?k \<mapsto> ?q),
                      timers := timers st @ [(clock st + CACHE_DURATION, ?k)],
                      promises := ?ps1\<rparr>"
    using assms(2,3,4)
    by (auto simp: apiRequest_def apiRequest_body_def executeRequest_def Let_def)
  have w1: "window ?k ?q (clock st + CACHE_DURATION) st1"
    using none by (simp add: st1 window_def timers_for_def)
  have f1: "fetched_for ?k st1 = fetched_for ?k st @ [(e, c)]"
    by (simp add: st1 fetched_for_def)
  have w2: "window ?k ?q (clock st + CACHE_DURATION) st2 \<and>
            fetched_for ?k st2 = fetched_for ?k st1"
    unfolding assms(5)
    by (rule window_run [OF w1 _ refl assms(2)]) (use assms(5,6) in simp)
  have key: "getCacheKey e c' = ?k"
    by (rule getCacheKey_cong [OF assms(7,8)])
  have get: "method_or_get c' = GET"
    using assms(2,7) by simp
  obtain ys where ys: "promises st2 = ?ps1 @ ys"
    using promises_run [of evs st1] assms(5) st1 by auto
  have p2: "p2 = length (promises st2)"
    and st3: "st3 = st2\<lparr>promises := promises st2 @ [Async_promise ?q]\<rparr>"
    using assms(9) w2 key get
    by (auto simp: apiRequest_def apiRequest_body_def window_def)
  have ps3: "promises st3 = promises st @ [Fetch_promise (length (fetched st)), Async_promise ?q]
               @ ys @ [Async_promise ?q]"
    using st3 ys by simp
  have at_q: "promise_at st3 ?q = Some (Fetch_promise (length (fetched st)))"
    by (simp add: promise_at_def ps3 nth_append)
  have at_p1: "promise_at st3 p1 = Some (Async_promise ?q)"
    by (simp add: promise_at_def ps3 p1 nth_append)
  have at_p2: "promise_at st3 p2 = Some (Async_promise ?q)"
    by (simp add: promise_at_def ps3 p2 ys nth_append)
  have cache: "requestCache st1 ?k = Some ?q" by (simp add: st1)
  have ne: "p2 \<noteq> p1" using p1 p2 ys by simp
  have "fetched_for ?k st3 = fetched_for ?k st @ [(e, c)]"
    using w2 f1 st3 by (simp add: fetched_for_def)
  moreover have "fetched st3 = fetched st2" using st3 by simp
  ultimately show ?thesis
    using ne at_q at_p1 at_p2 cache by (simp add: adopted_def settled_by_def)
qed

theorem apiRequest_within_window_witness:
  "apiRequest ''/users/storage'' \<lparr>req_method = None, headers = [], body = None\<rparr> client_init
     = (1, \<lparr>requestCache = [''GET:/users/storage:{}'' \<mapsto> 0],
            timers = [(5000, ''GET:/users/storage:{}'')], clock = 0,
            fetched = [(''/users/storage'', \<lparr>req_method = None, headers = [], body = None\<rparr>)],
            promises = [Fetch_promise 0, Async_promise 0]\<rparr>) \<and>
   apiRequest ''/users/storage'' \<lparr>req_method = Some GET, headers = [(''X'', ''1'')], body = None\<rparr>
     \<lparr>requestCache = [''GET:/users/storage:{}'' \<mapsto> 0],
      timers = [(5000, ''GET:/users/storage:{}'')], clock = 4999,
      fetched = [(''/users/storage'', \<lparr>req_method = None, headers = [], body = None\<rparr>)],
      promises = [Fetch_promise 0, Async_promise 0]\<rparr>
     = (2, \<lparr>requestCache = [''GET:/users/storage:{}'' \<mapsto> 0],
            timers = [(5000, ''GET:/users/storage:{}'')], clock = 4999,
            fetched = [(''/users/storage'', \<lparr>req_method = None, headers = [], body = None\<rparr>)],
            promises = [Fetch_promise 0, Async_promise 0, Async_promise 0]\<rparr>) \<and>
   settled_by
     \<lparr>requestCache = [''GET:/users/storage:{}'' \<mapsto> 0],
      timers = [(5000, ''GET:/users/storage:{}'')], clock = 4999,
      fetched = [(''/users/storage'', \<lparr>req_method = None, headers = [], body = None\<rparr>)],
      promises = [Fetch_promise 0, Async_promise 0, Async_promise 0]\<rparr> 1 = Some 0 \<and>
   settled_by
     \<lparr>requestCache = [''GET:/users/storage:{}'' \<mapsto> 0],
      timers = [(5000, ''GET:/users/storage:{}'')], clock = 4999,
      fetched = [(''/users/storage'', \<lparr>req_method = None, headers = [], body = None\<rparr>)],
      promises = [Fetch_promise 0, Async_promise 0, Async_promise 0]\<rparr> 2 = Some 0"
proof -
  let ?c = "\<lparr>req_method = None, headers = [], body = None\<rparr>"
  let ?c' = "\<lparr>req_method = Some GET, headers = [(''X'', ''1'')], body = None\<rparr>"
  let ?k = "''GET:/users/storage:{}''"
  let ?st1 = "\<lparr>requestCache = [?k \<mapsto> 0], timers = [(5000, ?k)], clock = 0,
              fetched = [(''/users/storage'', ?c)],
              promises = [Fetch_promise 0, Async_promise 0]\<rparr>"
  let ?st2 = "\<lparr>requestCache = [?k \<mapsto> 0], timers = [(5000, ?k)], clock = 4999,
              fetched = [(''/users/storage'', ?c)],
              promises = [Fetch_promise 0, Async_promise 0]\<rparr>"
  let ?st3 = "\<lparr>requestCache = [?k \<mapsto> 0], timers = [(5000, ?k)], clock = 4999,
              fetched = [(''/users/storage'', ?c)],
              promises = [Fetch_promise 0, Async_promise 0, Async_promise 0]\<rparr>"
  have h1: "client_init = run [] client_init" by (simp add: run_def)
  have h2: "method_or_get ?c = GET" by (simp add: method_or_get_def)
  have h3: "requestCache client_init (getCacheKey ''/users/storage'' ?c) = None"
    by (simp add: client_init_def)
  have h4: "apiRequest ''/users/storage'' ?c client_init = (1, ?st1)"
    by (simp add: client_init_def apiRequest_def apiRequest_body_def executeRequest_def
          getCacheKey_def method_or_get_def CACHE_DURATION_def Let_def)
  have h5: "?st2 = run [Fire 0, Advance 4999] ?st1" by (simp add: run_def)
  have h6: "clock ?st2 < clock client_init + CACHE_DURATION"
    by (simp add: client_init_def CACHE_DURATION_def)
  have h7: "method_or_get ?c' = method_or_get ?c" by (simp add: method_or_get_def)
  have h8: "body ?c' = body ?c" by simp
  have h9: "apiRequest ''/users/storage'' ?c' ?st2 = (2, ?st3)"
    by (simp add: apiRequest_def apiRequest_body_def getCacheKey_def method_or_get_def
          Let_def)
  from apiRequest_within_window [OF h1 h2 h3 h4 h5 h6 h7 h8 h9] h4 h9
  show ?thesis by (simp add: client_init_def)
qed

text \<open>Once the timer has run, the next call makes a new call of \<open>fetch\<close>.\<close>

lemma apiRequest_after_window:
  "fetched (snd (apiRequest ''/users/storage'' \<lparr>req_method = None, headers = [], body = None\<rparr>
     (run [Advance 5000, Fire 0]
        (snd (apiRequest ''/users/storage'' \<lparr>req_method = None, headers = [], body = None\<rparr>
                client_init)))))
     = [(''/users/storage'', \<lparr>req_method = None, headers = [], body = None\<rparr>),
        (''/users/storage'', \<lparr>req_method = None, headers = [], body = None\<rparr>)]"
  by (simp add: run_def client_init_def apiRequest_def apiRequest_body_def executeRequest_def
        getCacheKey_def method_or_get_def CACHE_DURATION_def Let_def)

text \<open>
  The window is counted from the call that filled the cache, not from the first of two
  calls: a call 4999 ms after the fill is served from the cache, and a call 1 ms after
  that one, once the timer has run, makes a new call of \<open>fetch\<close>.
\<close>

lemma apiRequest_window_from_fill:
  "fetched (run [Call ''/users/storage'' \<lparr>req_method = None, headers = [], body = None\<rparr>,
                 Advance 4999,
                 Call ''/users/storage'' \<lparr>req_method = None, headers = [], body = None\<rparr>]
              client_init)
     = [(''/users/storage'', \<lparr>req_method = None, headers = [], body = None\<rparr>)] \<and>
   fetched (run [Call ''/users/storage'' \<lparr>req_method = None, headers = [], body = None\<rparr>,
                 Advance 4999,
                 Call ''/users/storage'' \<lparr>req_method = None, headers = [], body = None\<rparr>,
                 Advance 1, Fire 0,
                 Call ''/users/storage'' \<lparr>req_method = None, headers = [], body = None\<rparr>]
              client_init)
     = [(''/users/storage'', \<lparr>req_method = None, headers = [], body = None\<rparr>),
        (''/users/storage'', \<lparr>req_method = None, headers = [], body = None\<rparr>)]"
  by (simp add: run_def client_init_def apiRequest_def apiRequest_body_def executeRequest_def
        getCacheKey_def method_or_get_def CACHE_DURATION_def Let_def)

section \<open>Properties of the task registry\<close>

lemma due_key_le: "due_key a \<le> due_key b \<longleftrightarrow> due_before a b"
  by (auto simp: due_key_def due_before_def less_eq_prod_def)

lemma dueTasks_only_due:
  "list_all (\<lambda>r. is_processed r = Some False \<and> t_expires_at r \<le> asOf) (dueTasks asOf limit ts)"
  by (auto simp: dueTasks_def list_all_iff dest!: in_set_takeD)

lemma dueTasks_length: "length (dueTasks asOf limit ts) \<le> limit"
  by (simp add: dueTasks_def)

lemma dueTasks_sorted: "sorted_wrt due_before (dueTasks asOf limit ts)"
proof -
  let ?d = "filter (\<lambda>r. is_processed r = Some False \<and> t_expires_at r \<le> asOf) ts"
  have "sorted (map due_key (sort_key due_key ?d))" by (rule sorted_sort_key)
  then have "sorted_wrt due_before (sort_key due_key ?d)"
    by (simp add: sorted_map due_key_le [abs_def] sorted_wrt_iff_nth_less due_key_le)
  then show ?thesis unfolding dueTasks_def by (rule sorted_wrt_take)
qed

lemma sort_key_unique:
  assumes "inj_on f (set xs)" and "distinct xs" and "distinct ys" and "set ys = set xs"
  shows "sort_key f ys = sort_key f xs"
proof -
  have "map f (sort_key f ys) = map f (sort_key f xs)"
  proof (rule sorted_distinct_set_unique)
    show "sorted (map f (sort_key f ys))" by (rule sorted_sort_key)
    show "sorted (map f (sort_key f xs))" by (rule sorted_sort_key)
    show "distinct (map f (sort_key f ys))"
      using assms by (simp add: distinct_map)
    show "distinct (map f (sort_key f xs))"
      using assms by (simp add: distinct_map)
    show "set (map f (sort_key f ys)) = set (map f (sort_key f xs))"
      using assms(4) by simp
  qed
  moreover have "inj_on f (set (sort_key f ys) \<union> set (sort_key f xs))"
    using assms(1,4) by simp
  ultimately show ?thesis by (simp add: inj_on_map_eq_map)
qed

lemma dueTasks_order_independent:
  assumes "distinct (map t_id ts)" and "distinct (map t_id ts')" and "set ts' = set ts"
  shows "dueTasks asOf limit ts' = dueTasks asOf limit ts"
proof -
  let ?P = "\<lambda>r. is_processed r = Some False \<and> t_expires_at r \<le> asOf"
  have inj: "inj_on t_id (set ts)" and d: "distinct ts" and d': "distinct ts'"
    using assms(1,2) by (auto simp: distinct_map)
  have "inj_on due_key (set (filter ?P ts))"
    using inj by (auto simp: inj_on_def due_key_def)
  then have "sort_key due_key (filter ?P ts') = sort_key due_key (filter ?P ts)"
    by (rule sort_key_unique) (use d d' assms(3) in auto)
  then show ?thesis by (simp add: dueTasks_def)
qed

text \<open>
  C7. Every task \<open>dueTasks asOf limit\<close> returns is a row of the table that is
  unprocessed and due at or before \<open>asOf\<close>; at most \<open>limit\<close> tasks are returned; they are
  ordered by due instant ascending, equal instants by task identity; and the result is
  determined by the set of rows alone: two tables with the same rows (and a primary key)
  give the same sequence, in whatever order the store holds them.
\<close>

theorem dueTasks_due_capped_ordered:
  "list_all (\<lambda>r. r \<in> set ts \<and> is_processed r = Some False \<and> t_expires_at r \<le> asOf)
     (dueTasks asOf limit ts) \<and>
   length (dueTasks asOf limit ts) \<le> limit \<and>
   sorted_wrt due_before (dueTasks asOf limit ts) \<and>
   (distinct (map t_id ts) \<and> distinct (map t_id ts') \<and> set ts' = set ts \<longrightarrow>
      dueTasks asOf limit ts' = dueTasks asOf limit ts)"
proof -
  have "list_all (\<lambda>r. r \<in> set ts) (dueTasks asOf limit ts)"
    by (auto simp: dueTasks_def list_all_iff dest!: in_set_takeD)
  then have "list_all (\<lambda>r. r \<in> set ts \<and> is_processed r = Some False \<and> t_expires_at r \<le> asOf)
     (dueTasks asOf limit ts)"
    using dueTasks_only_due [of asOf limit ts] by (simp add: list_all_iff)
  then show ?thesis
    using dueTasks_length dueTasks_sorted dueTasks_order_independent by blast
qed

theorem dueTasks_due_capped_ordered_witness:
  "distinct (map t_id
       [\<lparr>t_id = 4, task_type = ''file'', target_id = 7, t_expires_at = 90,
         is_processed = Some False, processed_at = None\<rparr>,
        \<lparr>t_id = 3, task_type = ''share'', target_id = 8, t_expires_at = 90,
         is_processed = Some False, processed_at = None\<rparr>,
        \<lparr>t_id = 2, task_type = ''file'', target_id = 9, t_expires_at = 101,
         is_processed = Some False, processed_at = None\<rparr>,
        \<lparr>t_id = 1, task_type = ''file'', target_id = 5, t_expires_at = 10,
         is_processed = Some True, processed_at = Some 10\<rparr>,
        \<lparr>t_id = 5, task_type = ''file'', target_id = 6, t_expires_at = 50,
         is_processed = Some False, processed_at = None\<rparr>]) \<and>
   dueTasks 100 3
       [\<lparr>t_id = 4, task_type = ''file'', target_id = 7, t_expires_at = 90,
         is_processed = Some False, processed_at = None\<rparr>,
        \<lparr>t_id = 3, task_type = ''share'', target_id = 8, t_expires_at = 90,
         is_processed = Some False, processed_at = None\<rparr>,
        \<lparr>t_id = 2, task_type = ''file'', target_id = 9, t_expires_at = 101,
         is_processed = Some False, processed_at = None\<rparr>,
        \<lparr>t_id = 1, task_type = ''file'', target_id = 5, t_expires_at = 10,
         is_processed = Some True, processed_at = Some 10\<rparr>,
        \<lparr>t_id = 5, task_type = ''file'', target_id = 6, t_expires_at = 50,
         is_processed = Some False, processed_at = None\<rparr>]
     = [\<lparr>t_id = 5, task_type = ''file'', target_id = 6, t_expires_at = 50,
         is_processed = Some False, processed_at = None\<rparr>,
        \<lparr>t_id = 3, task_type = ''share'', target_id = 8, t_expires_at = 90,
         is_processed = Some False, processed_at = None\<rparr>,
        \<lparr>t_id = 4, task_type = ''file'', target_id = 7, t_expires_at = 90,
         is_processed = Some False, processed_at = None\<rparr>] \<and>
   dueTasks 100 3
       [\<lparr>t_id = 5, task_type = ''file'', target_id = 6, t_expires_at = 50,
         is_processed = Some False, processed_at = None\<rparr>,
        \<lparr>t_id = 1, task_type = ''file'', target_id = 5, t_expires_at = 10,
         is_processed = Some True, processed_at = Some 10\<rparr>,
        \<lparr>t_id = 2, task_type = ''file'', target_id = 9, t_expires_at = 101,
         is_processed = Some False, processed_at = None\<rparr>,
        \<lparr>t_id = 3, task_type = ''share'', target_id = 8, t_expires_at = 90,
         is_processed = Some False, processed_at = None\<rparr>,
        \<lparr>t_id = 4, task_type = ''file'', target_id = 7, t_expires_at = 90,
         is_processed = Some False, processed_at = None\<rparr>]
     = [\<lparr>t_id = 5, task_type = ''file'', target_id = 6, t_expires_at = 50,
         is_processed = Some False, processed_at = None\<rparr>,
        \<lparr>t_id = 3, task_type = ''share'', target_id = 8, t_expires_at = 90,
         is_processed = Some False, processed_at = None\<rparr>,
        \<lparr>t_id = 4, task_type = ''file'', target_id = 7, t_expires_at = 90,
         is_processed = Some False, processed_at = None\<rparr>]"
proof -
  have same: "set [\<lparr>t_id = 5, task_type = ''file'', target_id = 6, t_expires_at = 50,
         is_processed = Some False, processed_at = None\<rparr>,
        \<lparr>t_id = 1, task_type = ''file'', target_id = 5, t_expires_at = 10,
         is_processed = Some True, processed_at = Some 10\<rparr>,
        \<lparr>t_id = 2, task_type = ''file'', target_id = 9, t_expires_at = 101,
         is_processed = Some False, processed_at = None\<rparr>,
        \<lparr>t_id = 3, task_type = ''share'', target_id = 8, t_expires_at = 90,
         is_processed = Some False, processed_at = None\<rparr>,
        \<lparr>t_id = 4, task_type = ''file'', target_id = 7, t_expires_at = 90,
         is_processed = Some False, processed_at = None\<rparr>]
     = set [\<lparr>t_id = 4, task_type = ''file'', target_id = 7, t_expires_at = 90,
         is_processed = Some False, processed_at = None\<rparr>,
        \<lparr>t_id = 3, task_type = ''share'', target_id = 8, t_expires_at = 90,
         is_processed = Some False, processed_at = None\<rparr>,
        \<lparr>t_id = 2, task_type = ''file'', target_id = 9, t_expires_at = 101,
         is_processed = Some False, processed_at = None\<rparr>,
        \<lparr>t_id = 1, task_type = ''file'', target_id = 5, t_expires_at = 10,
         is_processed = Some True, processed_at = Some 10\<rparr>,
        \<lparr>t_id = 5, task_type = ''file'', target_id = 6, t_expires_at = 50,
         is_processed = Some False, processed_at = None\<rparr>]"
    by auto
  show ?thesis
    using same dueTasks_due_capped_ordered
      [of "[\<lparr>t_id = 4, task_type = ''file'', target_id = 7, t_expires_at = 90,
         is_processed = Some False, processed_at = None\<rparr>,
        \<lparr>t_id = 3, task_type = ''share'', target_id = 8, t_expires_at = 90,
         is_processed = Some False, processed_at = None\<rparr>,
        \<lparr>t_id = 2, task_type = ''file'', target_id = 9, t_expires_at = 101,
         is_processed = Some False, processed_at = None\<rparr>,
        \<lparr>t_id = 1, task_type = ''file'', target_id = 5, t_expires_at = 10,
         is_processed = Some True, processed_at = Some 10\<rparr>,
        \<lparr>t_id = 5, task_type = ''file'', target_id = 6, t_expires_at = 50,
         is_processed = Some False, processed_at = None\<rparr>]" 100 3
          "[\<lparr>t_id = 5, task_type = ''file'', target_id = 6, t_expires_at = 50,
         is_processed = Some False, processed_at = None\<rparr>,
        \<lparr>t_id = 1, task_type = ''file'', target_id = 5, t_expires_at = 10,
         is_processed = Some True, processed_at = Some 10\<rparr>,
        \<lparr>t_id = 2, task_type = ''file'', target_id = 9, t_expires_at = 101,
         is_processed = Some False, processed_at = None\<rparr>,
        \<lparr>t_id = 3, task_type = ''share'', target_id = 8, t_expires_at = 90,
         is_processed = Some False, processed_at = None\<rparr>,
        \<lparr>t_id = 4, task_type = ''file'', target_id = 7, t_expires_at = 90,
         is_processed = Some False, processed_at = None\<rparr>]"]
    by (simp add: dueTasks_def sort_key_def due_key_def less_eq_prod_def)
qed

section \<open>Properties of share downloads\<close>








section \<open>Properties of the sweeper\<close>

lemma update_users_storage_used_shape:
  assumes "update_users_storage_used uid now db = Inr db'"
  shows "\<exists>us. db' = db\<lparr>users := us\<rparr> \<and> map u_id us = map u_id (users db)"
proof (cases "list_ex (\<lambda>u. u_id u = uid) (users db)")
  case False
  then have "db' = db\<lparr>users := users db\<rparr>"
    using assms by (simp add: update_users_storage_used_def)
  then show ?thesis by blast
next
  case True
  then obtain v where "db' = db\<lparr>users :=
      map (\<lambda>u. if u_id u = uid then update_users_updated_at now (u\<lparr>storage_used := v\<rparr>) else u)
        (users db)\<rparr>"
    using assms by (auto simp: update_users_storage_used_def split: sum.splits)
  moreover have "map u_id (map (\<lambda>u. if u_id u = uid
        then update_users_updated_at now (u\<lparr>storage_used := v\<rparr>) else u) (users db))
      = map u_id (users db)"
    by (induction "users db") (auto simp: update_users_updated_at_def)
  ultimately show ?thesis by blast
qed

text \<open>The soft delete of the sweeper, as a statement on \<open>files\<close>.\<close>

lemma soft_delete_shape:
  assumes "update_file fid (\<lambda>r. r\<lparr>f_is_deleted := Some True\<rparr>) now db = Inr db'"
    and "get_file fid db = Some old"
  shows "\<exists>us. db' = db\<lparr>files := map (\<lambda>r. if f_id r = fid
                       then old\<lparr>f_is_deleted := Some True, f_id := fid, f_updated_at := Some now\<rparr>
                       else r) (files db),
                    users := us\<rparr> \<and>
              map u_id us = map u_id (users db)"
proof -
  let ?new = "old\<lparr>f_is_deleted := Some True, f_id := fid, f_updated_at := Some now\<rparr>"
  let ?db1 = "db\<lparr>files := map (\<lambda>r. if f_id r = fid then ?new else r) (files db)\<rparr>"
  from assms have "update_users_storage_used (f_user_id ?new) now ?db1 = Inr db'"
    by (auto simp: update_file_def get_file_def Let_def update_files_updated_at_def
          update_user_storage_usage_def split: sum.splits)
  from update_users_storage_used_shape [OF this]
  obtain us where "db' = ?db1\<lparr>users := us\<rparr>" and "map u_id us = map u_id (users ?db1)"
    by blast
  then show ?thesis by auto
qed

lemma soft_delete_missing:
  assumes "get_file fid db = None"
  shows "update_file fid upd now db = Inr db"
  using assms by (simp add: update_file_def get_file_def)

lemma update_share_files:
  assumes "update_share sid upd db = Inr db'"
  shows "files db' = files db \<and> users db' = users db \<and> folders db' = folders db \<and>
         expiry_tasks db' = expiry_tasks db"
  using assms by (auto simp: update_share_def Let_def split: option.splits sum.splits)


lemma claim_task_shape:
  assumes "claim_task now tid db = Claimed db1"
  shows "\<exists>cur. get_task tid db = Some cur \<and> is_processed cur = Some False \<and>
           t_id cur = tid \<and>
           db1 = db\<lparr>expiry_tasks :=
                  map (\<lambda>r. if t_id r = tid
                           then cur\<lparr>is_processed := Some True, processed_at := Some now\<rparr>
                           else r) (expiry_tasks db)\<rparr> \<and>
           update_task tid (\<lambda>r. r\<lparr>is_processed := Some True, processed_at := Some now\<rparr>)
             (expiry_tasks db) = Inr (expiry_tasks db1)"
  using assms
  by (auto simp: claim_task_def get_task_def update_task_def Let_def
           split: option.splits if_splits sum.splits dest: find_Some_iff [THEN iffD1])

text \<open>What one step of a cycle that goes on can have done to the store.\<close>

lemma sweep_task_cases:
  assumes "sweep_task now db t = Inr db'"
  obtains (skip) "claim_task now (t_id t) db = Lost" and "db' = db"
  | (claimed) "claim_task now (t_id t) db = Claimed db'"
  | (deleted) db1 old where "claim_task now (t_id t) db = Claimed db1"
      and "task_type t = ''file''" and "get_file (target_id t) db1 = Some old"
      and "update_file (target_id t) (\<lambda>r. r\<lparr>f_is_deleted := Some True\<rparr>) now db1 = Inr db'"
  | (deactivated) db1 where "claim_task now (t_id t) db = Claimed db1"
      and "task_type t = ''share''"
      and "update_share (target_id t) (\<lambda>r. r\<lparr>s_is_active := Some False\<rparr>) db1 = Inr db'"
proof (cases "claim_task now (t_id t) db")
  case Lost
  then have "db' = db" using assms by (simp add: sweep_task_def)
  then show ?thesis using Lost skip by blast
next
  case (Refused e)
  then show ?thesis using assms by (simp add: sweep_task_def)
next
  case (Claimed db1)
  show ?thesis
  proof (cases "apply_expiration now t db1")
    case (Inl e)
    then have "db' = db1" using Claimed assms by (simp add: sweep_task_def)
    then show ?thesis using Claimed claimed by blast
  next
    case (Inr db2)
    then have st: "db' = db2" using Claimed assms by (simp add: sweep_task_def)
    show ?thesis
    proof (cases "task_type t = ''file''")
      case True
      then have uf: "update_file (target_id t) (\<lambda>r. r\<lparr>f_is_deleted := Some True\<rparr>) now db1
                      = Inr db'"
        using Inr st by (simp add: apply_expiration_def)
      show ?thesis
      proof (cases "get_file (target_id t) db1")
        case None
        then have "db' = db1" using uf soft_delete_missing [OF None] by simp
        then show ?thesis using Claimed claimed by blast
      next
        case (Some old)
        then show ?thesis using deleted Claimed True uf by blast
      qed
    next
      case False
      show ?thesis
      proof (cases "task_type t = ''share''")
        case True
        then show ?thesis
          using deactivated Claimed Inr st False by (simp add: apply_expiration_def)
      next
        case False': False
        then have "db' = db1" using Inr st False by (simp add: apply_expiration_def)
        then show ?thesis using Claimed claimed by blast
      qed
    qed
  qed
qed






lemma claim_task_frame:
  assumes "claim_task now tid db = Claimed db1"
  shows "files db1 = files db \<and> users db1 = users db \<and> folders db1 = folders db \<and>
         shares db1 = shares db \<and>
         (tasks_ok (expiry_tasks db) \<longrightarrow> tasks_ok (expiry_tasks db1))"
proof -
  from claim_task_shape [OF assms] obtain cur where
    db1: "db1 = db\<lparr>expiry_tasks :=
                  map (\<lambda>r. if t_id r = tid
                           then cur\<lparr>is_processed := Some True, processed_at := Some now\<rparr>
                           else r) (expiry_tasks db)\<rparr>"
    and upd: "update_task tid (\<lambda>r. r\<lparr>is_processed := Some True, processed_at := Some now\<rparr>)
             (expiry_tasks db) = Inr (expiry_tasks db1)"
    by blast
  show ?thesis using db1 update_task_ok [OF _ upd] by simp
qed










lemma tasks_ok_distinct: "tasks_ok ts \<Longrightarrow> distinct (map t_id ts)"
  by (induction ts) (auto simp: list_ex_iff)

lemma find_task:
  assumes "tasks_ok ts" and "t \<in> set ts"
  shows "find (\<lambda>r. t_id r = t_id t) ts = Some t"
  using assms by (induction ts) (auto simp: list_ex_iff)

lemma tasks_ok_no_collision:
  assumes "tasks_ok ts" and "a \<in> set ts" and "b \<in> set ts" and "unique_unprocessed_task a b"
  shows "a = b"
  using assms
proof (induction ts)
  case Nil
  then show ?case by simp
next
  case (Cons x xs)
  have sym: "unique_unprocessed_task b a"
    using Cons.prems(4)
    by (cases "is_processed a"; cases "is_processed b") (auto simp: unique_unprocessed_task_def)
  from Cons.prems(1) have nocol: "\<forall>y \<in> set xs. \<not> unique_unprocessed_task x y"
    and ok: "tasks_ok xs"
    by (auto simp: list_ex_iff)
  show ?case
  proof (cases "a = x")
    case True
    then show ?thesis using Cons.prems(3,4) nocol by auto
  next
    case False
    then have a: "a \<in> set xs" using Cons.prems(2) by simp
    show ?thesis
    proof (cases "b = x")
      case True
      then show ?thesis using a sym nocol by auto
    next
      case False
      then have "b \<in> set xs" using Cons.prems(3) by simp
      then show ?thesis using Cons.IH ok a Cons.prems(4) by simp
    qed
  qed
qed


text \<open>
  A step for a task \<open>t\<close> of the table leaves the table as it is or marks \<open>t\<close>, and only
  \<open>t\<close>, processed.
\<close>

lemma sweep_task_tasks:
  assumes "sweep_task now db t = Inr db'" and "tasks_ok (expiry_tasks db)"
    and "t \<in> set (expiry_tasks db)"
  shows "expiry_tasks db' = expiry_tasks db \<or>
         expiry_tasks db' =
           map (\<lambda>r. if t_id r = t_id t
                    then t\<lparr>is_processed := Some True, processed_at := Some now\<rparr> else r)
             (expiry_tasks db)"
proof -
  have claim: "expiry_tasks db1 =
           map (\<lambda>r. if t_id r = t_id t
                    then t\<lparr>is_processed := Some True, processed_at := Some now\<rparr> else r)
             (expiry_tasks db)"
    if c: "claim_task now (t_id t) db = Claimed db1" for db1
  proof -
    from claim_task_shape [OF c] obtain cur where
      cur: "get_task (t_id t) db = Some cur"
      and db1: "db1 = db\<lparr>expiry_tasks :=
                  map (\<lambda>r. if t_id r = t_id t
                           then cur\<lparr>is_processed := Some True, processed_at := Some now\<rparr>
                           else r) (expiry_tasks db)\<rparr>"
      by blast
    have "cur = t" using cur find_task [OF assms(2,3)] by (simp add: get_task_def)
    then show ?thesis using db1 by simp
  qed
  from assms(1) show ?thesis
  proof (cases rule: sweep_task_cases)
    case skip
    then show ?thesis by simp
  next
    case claimed
    then show ?thesis using claim by simp
  next
    case (deleted db1 old)
    from soft_delete_shape [OF deleted(4,3)] have "expiry_tasks db' = expiry_tasks db1"
      by auto
    then show ?thesis using claim [OF deleted(1)] by simp
  next
    case (deactivated db1)
    then show ?thesis using claim [OF deactivated(1)] update_share_files by simp
  qed
qed

lemma sweep_task_keeps:
  assumes "sweep_task now db t = Inr db'" and "tasks_ok (expiry_tasks db)"
    and "t \<in> set (expiry_tasks db)"
    and "x \<in> set (expiry_tasks db)" and "t_id x \<noteq> t_id t"
  shows "x \<in> set (expiry_tasks db')"
  using sweep_task_tasks [OF assms(1,2,3)] assms(4,5) by (auto simp: image_iff)




text \<open>
  The claim of a task that is still unprocessed in the table is not lost: it succeeds
  or the store refuses it.
\<close>

lemma claim_own_task:
  assumes "T \<in> set (expiry_tasks db)" and "tasks_ok (expiry_tasks db)"
    and "is_processed T = Some False"
  shows "claim_task now (t_id T) db
           = (case update_task (t_id T)
                     (\<lambda>r. r\<lparr>is_processed := Some True, processed_at := Some now\<rparr>)
                     (expiry_tasks db) of
                Inl e \<Rightarrow> Refused e
              | Inr ts \<Rightarrow> Claimed (db\<lparr>expiry_tasks := ts\<rparr>))"
  using find_task [OF assms(2,1)] assms(3) by (simp add: claim_task_def)






lemma dueTasks_member:
  assumes "t \<in> set (dueTasks asOf limit ts)"
  shows "t \<in> set ts \<and> is_processed t = Some False \<and> t_expires_at t \<le> asOf"
  using assms by (auto simp: dueTasks_def dest!: in_set_takeD)

lemma dueTasks_distinct_ids:
  assumes "distinct (map t_id ts)"
  shows "distinct (map t_id (dueTasks asOf limit ts))"
proof -
  let ?d = "filter (\<lambda>r. is_processed r = Some False \<and> t_expires_at r \<le> asOf) ts"
  have inj: "inj_on t_id (set ts)" and d: "distinct ts"
    using assms by (auto simp: distinct_map)
  have "distinct (sort_key due_key ?d)" using d by simp
  then have "distinct (dueTasks asOf limit ts)" by (simp add: dueTasks_def)
  moreover have "inj_on t_id (set (dueTasks asOf limit ts))"
    by (rule inj_on_subset [OF inj]) (auto simp: dueTasks_def dest!: in_set_takeD)
  ultimately show ?thesis by (simp add: distinct_map)
qed



lemma sweep_nothing_due:
  "dueTasks now limit (expiry_tasks db) = [] \<Longrightarrow> sweep now limit db = Inr db"
  by (simp add: sweep_def)

text \<open>
  Which tasks a cycle fetches: every unprocessed task that is due, when the limit is not
  below their number.
\<close>

lemma dueTasks_complete:
  assumes "t \<in> set ts" and "is_processed t = Some False" and "t_expires_at t \<le> asOf"
    and "length (filter (\<lambda>r. is_processed r = Some False \<and> t_expires_at r \<le> asOf) ts) \<le> limit"
  shows "t \<in> set (dueTasks asOf limit ts)"
  using assms by (simp add: dueTasks_def)

subsection \<open>When the store refuses a claim\<close>

text \<open>
  The claim sets \<open>is_processed\<close> to true, and \<open>unique_unprocessed_task\<close> compares that
  column too. So the store refuses the claim of a task exactly when the table already
  holds a processed row of the same kind and target, and no other error can come from
  a claim in a table whose rows satisfy the CHECK on \<open>task_type\<close>.
\<close>

lemma claim_task_refused:
  assumes "claim_task now tid db = Refused err"
    and "list_all task_type_check (expiry_tasks db)"
  shows "err = Unique_violation ''unique_unprocessed_task'' \<and>
         (\<exists>cur \<in> set (expiry_tasks db). \<exists>h \<in> set (expiry_tasks db).
            t_id cur = tid \<and> is_processed cur = Some False \<and>
            task_type h = task_type cur \<and> target_id h = target_id cur \<and>
            is_processed h = Some True)"
proof -
  let ?set = "\<lambda>r. r\<lparr>is_processed := Some True, processed_at := Some now\<rparr>"
  from assms(1) obtain cur where
    f: "find (\<lambda>r. t_id r = tid) (expiry_tasks db) = Some cur"
    and un: "is_processed cur = Some False"
    and upd: "update_task tid ?set (expiry_tasks db) = Inl err"
    by (auto simp: claim_task_def split: option.splits if_splits sum.splits)
  have cur: "cur \<in> set (expiry_tasks db)" "t_id cur = tid"
    using f by (auto simp: find_Some_iff)
  let ?new = "cur\<lparr>is_processed := Some True, processed_at := Some now\<rparr>"
  let ?others = "filter (\<lambda>r. t_id r \<noteq> tid) (expiry_tasks db)"
  have chk: "task_row_check ?new ?others = Inl err"
    using upd f by (simp add: update_task_def Let_def split: sum.splits)
  have ty: "task_type_check ?new"
    using cur(1) assms(2) by (simp add: list_all_iff task_type_check_def)
  have nk: "\<not> list_ex (\<lambda>r'. t_id r' = t_id ?new) ?others"
    using cur(2) by (simp add: list_ex_iff)
  from chk ty nk have err: "err = Unique_violation ''unique_unprocessed_task''"
    and col: "list_ex (unique_unprocessed_task ?new) ?others"
    by (auto simp: task_row_check_def split: if_splits)
  from col obtain h where h: "h \<in> set (expiry_tasks db)" "unique_unprocessed_task ?new h"
    by (auto simp: list_ex_iff)
  from h(2) have "task_type h = task_type cur \<and> target_id h = target_id cur \<and>
      is_processed h = Some True"
    by (cases "is_processed h") (auto simp: unique_unprocessed_task_def)
  then show ?thesis using err cur un h(1) by blast
qed

lemma claim_task_history:
  assumes "tasks_ok (expiry_tasks db)" and "list_all task_type_check (expiry_tasks db)"
    and "T \<in> set (expiry_tasks db)" and "is_processed T = Some False"
    and "tasks_of (task_type T) (target_id T) True (expiry_tasks db) \<noteq> []"
  shows "claim_task now (t_id T) db = Refused (Unique_violation ''unique_unprocessed_task'')"
proof -
  let ?new = "T\<lparr>is_processed := Some True, processed_at := Some now\<rparr>"
  let ?others = "filter (\<lambda>r. t_id r \<noteq> t_id T) (expiry_tasks db)"
  from assms(5) obtain h where h: "h \<in> set (expiry_tasks db)" "task_type h = task_type T"
      "target_id h = target_id T" "is_processed h = Some True"
    by (fastforce simp: tasks_of_def filter_empty_conv)
  have inj: "inj_on t_id (set (expiry_tasks db))"
    using tasks_ok_distinct [OF assms(1)] by (simp add: distinct_map)
  have "h \<noteq> T" using h(4) assms(4) by auto
  then have "t_id h \<noteq> t_id T" using inj h(1) assms(3) by (auto dest: inj_onD)
  then have "h \<in> set ?others" using h(1) by simp
  moreover have "unique_unprocessed_task ?new h"
    using h by (simp add: unique_unprocessed_task_def)
  ultimately have col: "list_ex (unique_unprocessed_task ?new) ?others"
    by (auto simp: list_ex_iff)
  have ty: "task_type_check ?new"
    using assms(2,3) by (simp add: list_all_iff task_type_check_def)
  have nk: "\<not> list_ex (\<lambda>r'. t_id r' = t_id ?new) ?others"
    by (simp add: list_ex_iff)
  have "task_row_check ?new ?others = Inl (Unique_violation ''unique_unprocessed_task'')"
    using ty nk col by (simp add: task_row_check_def)
  then have "update_task (t_id T) (\<lambda>r. r\<lparr>is_processed := Some True, processed_at := Some now\<rparr>)
               (expiry_tasks db) = Inl (Unique_violation ''unique_unprocessed_task'')"
    using find_task [OF assms(1,3)] by (simp add: update_task_def)
  then show ?thesis
    using claim_own_task [OF assms(3,1,4), of now] by simp
qed

lemma sweep_task_ok:
  assumes "sweep_task now db t = Inr db'" and "tasks_ok (expiry_tasks db)"
  shows "tasks_ok (expiry_tasks db')"
  using assms(1)
proof (cases rule: sweep_task_cases)
  case skip
  then show ?thesis using assms(2) by simp
next
  case claimed
  then show ?thesis using claim_task_frame assms(2) by blast
next
  case (deleted db1 old)
  from soft_delete_shape [OF deleted(4,3)] have "expiry_tasks db' = expiry_tasks db1"
    by auto
  then show ?thesis using claim_task_frame [OF deleted(1)] assms(2) by simp
next
  case (deactivated db1)
  then show ?thesis
    using claim_task_frame [OF deactivated(1)] update_share_files assms(2) by simp
qed

lemma sweep_tasks_refused:
  assumes "sweep_tasks now db ts = Inl err"
    and "tasks_ok (expiry_tasks db)" and "list_all task_type_check (expiry_tasks db)"
    and "distinct (map t_id ts)" and "set ts \<subseteq> set (expiry_tasks db)"
    and "\<forall>t \<in> set ts. is_processed t = Some False"
  shows "err = Unique_violation ''unique_unprocessed_task'' \<and>
         (\<exists>t \<in> set ts. tasks_of (task_type t) (target_id t) True (expiry_tasks db) \<noteq> [])"
  using assms
proof (induction ts arbitrary: db)
  case Nil
  then show ?case by simp
next
  case (Cons t ts)
  note ok = Cons.prems(2)
  have tin: "t \<in> set (expiry_tasks db)" using Cons.prems(5) by simp
  have inj: "inj_on t_id (set (expiry_tasks db))"
    using tasks_ok_distinct [OF ok] by (simp add: distinct_map)
  show ?case
  proof (cases "sweep_task now db t")
    case (Inl e)
    then have "e = err" using Cons.prems(1) by simp
    then have "claim_task now (t_id t) db = Refused err"
      using Inl by (auto simp: sweep_task_def split: claim_result.splits sum.splits)
    from claim_task_refused [OF this Cons.prems(3)] obtain cur h where
      err: "err = Unique_violation ''unique_unprocessed_task''"
      and cur: "cur \<in> set (expiry_tasks db)" "t_id cur = t_id t"
      and h: "h \<in> set (expiry_tasks db)" "task_type h = task_type cur"
        "target_id h = target_id cur" "is_processed h = Some True"
      by blast
    have "cur = t" using inj cur tin by (auto dest: inj_onD)
    then have "h \<in> set (tasks_of (task_type t) (target_id t) True (expiry_tasks db))"
      using h by (simp add: tasks_of_def)
    then have "tasks_of (task_type t) (target_id t) True (expiry_tasks db) \<noteq> []" by auto
    then show ?thesis using err by simp
  next
    case (Inr db1)
    then have s2: "sweep_tasks now db1 ts = Inl err" using Cons.prems(1) by simp
    let ?t' = "t\<lparr>is_processed := Some True, processed_at := Some now\<rparr>"
    note tk = sweep_task_tasks [OF Inr ok tin]
    have ok1: "tasks_ok (expiry_tasks db1)" by (rule sweep_task_ok [OF Inr ok])
    have ty: "task_type_check t" using tin Cons.prems(3) by (simp add: list_all_iff)
    have ty1: "list_all task_type_check (expiry_tasks db1)"
      using tk Cons.prems(3) ty by (auto simp: list_all_iff task_type_check_def)
    have sub1: "set ts \<subseteq> set (expiry_tasks db1)"
    proof
      fix x assume x: "x \<in> set ts"
      then have "t_id x \<noteq> t_id t" using Cons.prems(4) by (force simp: image_iff)
      moreover have "x \<in> set (expiry_tasks db)" using x Cons.prems(5) by auto
      ultimately show "x \<in> set (expiry_tasks db1)"
        using sweep_task_keeps [OF Inr ok tin] by blast
    qed
    have "err = Unique_violation ''unique_unprocessed_task'' \<and>
         (\<exists>x \<in> set ts. tasks_of (task_type x) (target_id x) True (expiry_tasks db1) \<noteq> [])"
      by (rule Cons.IH [OF s2 ok1 ty1 _ sub1]) (use Cons.prems(4,6) in auto)
    then obtain x h where err: "err = Unique_violation ''unique_unprocessed_task''"
      and x: "x \<in> set ts"
      and h: "h \<in> set (expiry_tasks db1)" "task_type h = task_type x"
        "target_id h = target_id x" "is_processed h = Some True"
      by (fastforce simp: tasks_of_def filter_empty_conv)
    have xin: "x \<in> set (expiry_tasks db)" and xun: "is_processed x = Some False"
      using x Cons.prems(5,6) by auto
    have "h \<in> set (expiry_tasks db)"
    proof (rule ccontr)
      assume new: "h \<notin> set (expiry_tasks db)"
      then have "h = ?t'" using tk h(1) by (auto split: if_splits)
      then have "unique_unprocessed_task t x"
        using h(2,3) xun Cons.prems(6) by (simp add: unique_unprocessed_task_def)
      then have "t = x" by (rule tasks_ok_no_collision [OF ok tin xin])
      then show False using x Cons.prems(4) by simp
    qed
    then have "h \<in> set (tasks_of (task_type x) (target_id x) True (expiry_tasks db))"
      using h by (simp add: tasks_of_def)
    then have "tasks_of (task_type x) (target_id x) True (expiry_tasks db) \<noteq> []" by auto
    then show ?thesis using err x by auto
  qed
qed

lemma sweep_refused:
  assumes "sweep now limit db = Inl err"
    and "tasks_ok (expiry_tasks db)" and "list_all task_type_check (expiry_tasks db)"
  shows "err = Unique_violation ''unique_unprocessed_task'' \<and>
         (\<exists>t \<in> set (dueTasks now limit (expiry_tasks db)).
            tasks_of (task_type t) (target_id t) True (expiry_tasks db) \<noteq> [])"
proof (rule sweep_tasks_refused [OF assms(1) [unfolded sweep_def] assms(2,3)])
  show "distinct (map t_id (dueTasks now limit (expiry_tasks db)))"
    by (rule dueTasks_distinct_ids [OF tasks_ok_distinct [OF assms(2)]])
  show "set (dueTasks now limit (expiry_tasks db)) \<subseteq> set (expiry_tasks db)"
    using dueTasks_member by blast
  show "\<forall>t \<in> set (dueTasks now limit (expiry_tasks db)). is_processed t = Some False"
    using dueTasks_member by blast
qed

text \<open>
  So a cycle runs to completion whenever no fetched task has a processed row of its
  kind and target beside it.
\<close>

lemma sweep_completes:
  assumes "tasks_ok (expiry_tasks db)" and "list_all task_type_check (expiry_tasks db)"
    and "\<forall>t \<in> set (dueTasks now limit (expiry_tasks db)).
           tasks_of (task_type t) (target_id t) True (expiry_tasks db) = []"
  shows "\<exists>db'. sweep now limit db = Inr db'"
proof (cases "sweep now limit db")
  case (Inl err)
  from sweep_refused [OF Inl assms(1,2)] assms(3) show ?thesis by blast
next
  case (Inr db')
  then show ?thesis by blast
qed

text \<open>
  And it does not run to completion otherwise: a fetched task whose target has a
  processed row stays as it is until its turn, and its claim is refused then, unless
  the cycle has ended before.
\<close>

lemma sweep_tasks_history:
  assumes "tasks_ok (expiry_tasks db)" and "list_all task_type_check (expiry_tasks db)"
    and "distinct (map t_id ts)" and "set ts \<subseteq> set (expiry_tasks db)"
    and "\<forall>t \<in> set ts. is_processed t = Some False"
    and "T \<in> set ts"
    and "tasks_of (task_type T) (target_id T) True (expiry_tasks db) \<noteq> []"
  shows "\<exists>err. sweep_tasks now db ts = Inl err"
  using assms
proof (induction ts arbitrary: db)
  case Nil
  then show ?case by simp
next
  case (Cons t ts)
  note ok = Cons.prems(1)
  have tin: "t \<in> set (expiry_tasks db)" using Cons.prems(4) by simp
  show ?case
  proof (cases "sweep_task now db t")
    case (Inl e)
    then show ?thesis by simp
  next
    case (Inr db1)
    have "t \<noteq> T"
    proof
      assume "t = T"
      then have "claim_task now (t_id t) db = Refused (Unique_violation ''unique_unprocessed_task'')"
        using claim_task_history [OF ok Cons.prems(2) tin _ ] Cons.prems(5,7) by simp
      then show False using Inr by (simp add: sweep_task_def)
    qed
    then have Tin: "T \<in> set ts" using Cons.prems(6) by simp
    note tk = sweep_task_tasks [OF Inr ok tin]
    have ok1: "tasks_ok (expiry_tasks db1)" by (rule sweep_task_ok [OF Inr ok])
    have ty: "task_type_check t" using tin Cons.prems(2) by (simp add: list_all_iff)
    have ty1: "list_all task_type_check (expiry_tasks db1)"
      using tk Cons.prems(2) ty by (auto simp: list_all_iff task_type_check_def)
    have keep: "x \<in> set (expiry_tasks db1)"
      if "x \<in> set (expiry_tasks db)" and "t_id x \<noteq> t_id t" for x
      using sweep_task_keeps [OF Inr ok tin that] .
    have sub1: "set ts \<subseteq> set (expiry_tasks db1)"
    proof
      fix x assume x: "x \<in> set ts"
      then have "t_id x \<noteq> t_id t" using Cons.prems(3) by (force simp: image_iff)
      moreover have "x \<in> set (expiry_tasks db)" using x Cons.prems(4) by auto
      ultimately show "x \<in> set (expiry_tasks db1)" by (rule keep [rotated -1])
    qed
    from Cons.prems(7) obtain h where h: "h \<in> set (expiry_tasks db)"
        "task_type h = task_type T" "target_id h = target_id T" "is_processed h = Some True"
      by (fastforce simp: tasks_of_def filter_empty_conv)
    have inj: "inj_on t_id (set (expiry_tasks db))"
      using tasks_ok_distinct [OF ok] by (simp add: distinct_map)
    have "h \<noteq> t" using h(4) Cons.prems(5) by auto
    then have "t_id h \<noteq> t_id t" using inj h(1) tin by (auto dest: inj_onD)
    then have "h \<in> set (expiry_tasks db1)" using keep h(1) by blast
    then have "h \<in> set (tasks_of (task_type T) (target_id T) True (expiry_tasks db1))"
      using h by (simp add: tasks_of_def)
    then have hist1: "tasks_of (task_type T) (target_id T) True (expiry_tasks db1) \<noteq> []"
      by auto
    have "\<exists>err. sweep_tasks now db1 ts = Inl err"
      by (rule Cons.IH [OF ok1 ty1 _ sub1 _ Tin hist1]) (use Cons.prems(3,5) in auto)
    then show ?thesis using Inr by simp
  qed
qed

lemma sweep_completes_iff:
  assumes "tasks_ok (expiry_tasks db)" and "list_all task_type_check (expiry_tasks db)"
  shows "(\<exists>db'. sweep now limit db = Inr db') \<longleftrightarrow>
         (\<forall>t \<in> set (dueTasks now limit (expiry_tasks db)).
             tasks_of (task_type t) (target_id t) True (expiry_tasks db) = [])"
proof
  assume run: "\<exists>db'. sweep now limit db = Inr db'"
  show "\<forall>t \<in> set (dueTasks now limit (expiry_tasks db)).
          tasks_of (task_type t) (target_id t) True (expiry_tasks db) = []"
  proof (rule ccontr)
    assume "\<not> ?thesis"
    then obtain T where T: "T \<in> set (dueTasks now limit (expiry_tasks db))"
      and hist: "tasks_of (task_type T) (target_id T) True (expiry_tasks db) \<noteq> []"
      by blast
    have "\<exists>err. sweep_tasks now db (dueTasks now limit (expiry_tasks db)) = Inl err"
    proof (rule sweep_tasks_history [OF assms _ _ _ T hist])
      show "distinct (map t_id (dueTasks now limit (expiry_tasks db)))"
        by (rule dueTasks_distinct_ids [OF tasks_ok_distinct [OF assms(1)]])
      show "set (dueTasks now limit (expiry_tasks db)) \<subseteq> set (expiry_tasks db)"
        using dueTasks_member by blast
      show "\<forall>t \<in> set (dueTasks now limit (expiry_tasks db)). is_processed t = Some False"
        using dueTasks_member by blast
    qed
    then show False using run by (auto simp: sweep_def)
  qed
next
  assume "\<forall>t \<in> set (dueTasks now limit (expiry_tasks db)).
          tasks_of (task_type t) (target_id t) True (expiry_tasks db) = []"
  then show "\<exists>db'. sweep now limit db = Inr db'"
    by (rule sweep_completes [OF assms])
qed

lemmas sweep_eval = sweep_def dueTasks_def sort_key_def due_key_def less_eq_prod_def
  sweep_task_def claim_task_def update_task_def task_row_check_def task_type_check_def
  unique_unprocessed_task_def apply_expiration_def update_file_def file_row_check_def
  in_bigint_def update_files_updated_at_def update_user_storage_usage_def
  update_users_storage_used_def calculate_user_storage_usage_def sql_sum_def cast_bigint_def
  update_users_updated_at_def Let_def

text \<open>
  The store that does refuse. File 20 (1000 bytes) expired once, at 10, and its task 3
  was processed; the file was restored and given the new expiration 90 with task 1. The
  table of tasks is reached by three statements the store accepts. From instant 90 on,
  every cycle that fetches anything fetches task 1, and the store refuses its claim,
  because the processed row of task 3 has the same kind and target: the constraint
  named for unprocessed tasks also keeps a target from being processed twice. Every such
  cycle ends with the unique violation, whatever \<open>now\<close> and \<open>limit\<close>, and file 20 is
  never deleted by a sweep.
\<close>

lemma sweep_history_row_refused:
  "expiry_tasks
     \<lparr>users = [\<lparr>u_id = 1, email = ''a@netdisk.com'', storage_used = Some 1000,
                storage_limit = Some 5368709120, u_updated_at = None\<rparr>],
      folders = [],
      files = [\<lparr>f_id = 20, f_user_id = 1, f_folder_id = None, f_name = ''a.txt'',
                f_size = 1000, f_is_deleted = Some False, f_expires_at = Some 90,
                f_updated_at = None\<rparr>],
      shares = [],
      expiry_tasks = [\<lparr>t_id = 3, task_type = ''file'', target_id = 20, t_expires_at = 10,
                       is_processed = Some True, processed_at = Some 10\<rparr>,
                      \<lparr>t_id = 1, task_type = ''file'', target_id = 20, t_expires_at = 90,
                       is_processed = Some False, processed_at = None\<rparr>]\<rparr>
     = tasks_after
         [Insert_task \<lparr>t_id = 3, task_type = ''file'', target_id = 20, t_expires_at = 10,
                       is_processed = Some False, processed_at = None\<rparr>,
          Update_task 3 (\<lambda>r. r\<lparr>is_processed := Some True, processed_at := Some 10\<rparr>),
          Insert_task \<lparr>t_id = 1, task_type = ''file'', target_id = 20, t_expires_at = 90,
                       is_processed = Some False, processed_at = None\<rparr>] \<and>
   sweep now limit
     \<lparr>users = [\<lparr>u_id = 1, email = ''a@netdisk.com'', storage_used = Some 1000,
                storage_limit = Some 5368709120, u_updated_at = None\<rparr>],
      folders = [],
      files = [\<lparr>f_id = 20, f_user_id = 1, f_folder_id = None, f_name = ''a.txt'',
                f_size = 1000, f_is_deleted = Some False, f_expires_at = Some 90,
                f_updated_at = None\<rparr>],
      shares = [],
      expiry_tasks = [\<lparr>t_id = 3, task_type = ''file'', target_id = 20, t_expires_at = 10,
                       is_processed = Some True, processed_at = Some 10\<rparr>,
                      \<lparr>t_id = 1, task_type = ''file'', target_id = 20, t_expires_at = 90,
                       is_processed = Some False, processed_at = None\<rparr>]\<rparr>
     = (if 90 \<le> now \<and> 0 < limit then Inl (Unique_violation ''unique_unprocessed_task'')
        else Inr
     \<lparr>users = [\<lparr>u_id = 1, email = ''a@netdisk.com'', storage_used = Some 1000,
                storage_limit = Some 5368709120, u_updated_at = None\<rparr>],
      folders = [],
      files = [\<lparr>f_id = 20, f_user_id = 1, f_folder_id = None, f_name = ''a.txt'',
                f_size = 1000, f_is_deleted = Some False, f_expires_at = Some 90,
                f_updated_at = None\<rparr>],
      shares = [],
      expiry_tasks = [\<lparr>t_id = 3, task_type = ''file'', target_id = 20, t_expires_at = 10,
                       is_processed = Some True, processed_at = Some 10\<rparr>,
                      \<lparr>t_id = 1, task_type = ''file'', target_id = 20, t_expires_at = 90,
                       is_processed = Some False, processed_at = None\<rparr>]\<rparr>)"
proof (intro conjI)
  show "expiry_tasks
     \<lparr>users = [\<lparr>u_id = 1, email = ''a@netdisk.com'', storage_used = Some 1000,
                storage_limit = Some 5368709120, u_updated_at = None\<rparr>],
      folders = [],
      files = [\<lparr>f_id = 20, f_user_id = 1, f_folder_id = None, f_name = ''a.txt'',
                f_size = 1000, f_is_deleted = Some False, f_expires_at = Some 90,
                f_updated_at = None\<rparr>],
      shares = [],
      expiry_tasks = [\<lparr>t_id = 3, task_type = ''file'', target_id = 20, t_expires_at = 10,
                       is_processed = Some True, processed_at = Some 10\<rparr>,
                      \<lparr>t_id = 1, task_type = ''file'', target_id = 20, t_expires_at = 90,
                       is_processed = Some False, processed_at = None\<rparr>]\<rparr>
     = tasks_after
         [Insert_task \<lparr>t_id = 3, task_type = ''file'', target_id = 20, t_expires_at = 10,
                       is_processed = Some False, processed_at = None\<rparr>,
          Update_task 3 (\<lambda>r. r\<lparr>is_processed := Some True, processed_at := Some 10\<rparr>),
          Insert_task \<lparr>t_id = 1, task_type = ''file'', target_id = 20, t_expires_at = 90,
                       is_processed = Some False, processed_at = None\<rparr>]"
    by (simp add: tasks_after_def run_task_stmt_def insert_task_def update_task_def
          task_row_check_def task_type_check_def unique_unprocessed_task_def)
  show "sweep now limit
     \<lparr>users = [\<lparr>u_id = 1, email = ''a@netdisk.com'', storage_used = Some 1000,
                storage_limit = Some 5368709120, u_updated_at = None\<rparr>],
      folders = [],
      files = [\<lparr>f_id = 20, f_user_id = 1, f_folder_id = None, f_name = ''a.txt'',
                f_size = 1000, f_is_deleted = Some False, f_expires_at = Some 90,
                f_updated_at = None\<rparr>],
      shares = [],
      expiry_tasks = [\<lparr>t_id = 3, task_type = ''file'', target_id = 20, t_expires_at = 10,
                       is_processed = Some True, processed_at = Some 10\<rparr>,
                      \<lparr>t_id = 1, task_type = ''file'', target_id = 20, t_expires_at = 90,
                       is_processed = Some False, processed_at = None\<rparr>]\<rparr>
     = (if 90 \<le> now \<and> 0 < limit then Inl (Unique_violation ''unique_unprocessed_task'')
        else Inr
     \<lparr>users = [\<lparr>u_id = 1, email = ''a@netdisk.com'', storage_used = Some 1000,
                storage_limit = Some 5368709120, u_updated_at = None\<rparr>],
      folders = [],
      files = [\<lparr>f_id = 20, f_user_id = 1, f_folder_id = None, f_name = ''a.txt'',
                f_size = 1000, f_is_deleted = Some False, f_expires_at = Some 90,
                f_updated_at = None\<rparr>],
      shares = [],
      expiry_tasks = [\<lparr>t_id = 3, task_type = ''file'', target_id = 20, t_expires_at = 10,
                       is_processed = Some True, processed_at = Some 10\<rparr>,
                      \<lparr>t_id = 1, task_type = ''file'', target_id = 20, t_expires_at = 90,
                       is_processed = Some False, processed_at = None\<rparr>]\<rparr>)"
    by (cases limit; cases "90 \<le> now") (simp_all add: sweep_eval)
qed




end
